theory Spec2Isabelle
  imports Main "HOL-Library.Word"
begin

unbundle bit_operations_syntax

section \<open>Data model (src/include/hashmap.h)\<close>

text \<open>
  A data reference is a \<^verbatim>\<open>void *\<close>: \<open>None\<close> is the null pointer, \<open>Some a\<close> the reference
  with address \<open>a\<close>. \<^verbatim>\<open>size_t\<close> values (counts, capacities, indices) are natural numbers:
  a bucket's capacity is the length of an allocated array, far below \<open>2 ^ 64\<close>. The size
  that \<^verbatim>\<open>hashmap_create\<close> computes from its argument, before anything is allocated, is
  taken modulo \<open>2 ^ 64\<close>.
  The two 32-bit key halves are words.
\<close>

type_synonym dataref = "nat option"

record HashMapBucketKey =
  pkey :: "32 word"
  skey :: "32 word"

record HashMapBucketItem =
  key :: HashMapBucketKey
  data :: dataref

text \<open>
  \<^verbatim>\<open>items\<close> is the array behind the pointer \<^verbatim>\<open>node->items\<close>; the null pointer of a bucket
  that was never allocated is the empty list.
\<close>

record HashMapBucket =
  items :: "HashMapBucketItem list"
  count :: nat
  capacity :: nat

text \<open>
  The container. \<^verbatim>\<open>map->capacity\<close> is \<open>map_capacity\<close> (the bucket record already has a field
  \<open>capacity\<close>), \<^verbatim>\<open>_tmp\<close> and \<^verbatim>\<open>_tmp_capacity\<close> are \<open>tmp\<close> and \<open>tmp_capacity\<close>.
  \<open>free_item\<close> says whether a destroy callback is configured (the pointer is not null);
  the calls made to it are returned by the operations that make them.
  The hash function receives the key and its length, which is \<^verbatim>\<open>strlen(key)\<close>.
\<close>

record HashMap =
  table :: "HashMapBucket list"
  map_capacity :: nat
  free_item :: bool
  hash_function :: "string \<Rightarrow> 64 word"
  tmp :: "HashMapBucketItem list"
  tmp_capacity :: nat

datatype error = AssertionFailed | DivisionByZero | OutOfBounds

text \<open>The outcome of the allocator calls one \<^verbatim>\<open>hashmap_set\<close> can make.\<close>

record allocator =
  scratch_ok :: bool
  items_ok :: bool

definition HASH_MAP_BUCKET_SIZE :: nat where
  "HASH_MAP_BUCKET_SIZE = 8"

definition KEY_EQU :: "HashMapBucketKey \<Rightarrow> HashMapBucketKey \<Rightarrow> bool" where
  "KEY_EQU a b = (pkey a = pkey b \<and> skey a = skey b)"

text \<open>A zeroed slot, as \<^verbatim>\<open>calloc\<close> and \<^verbatim>\<open>memset\<close> produce it.\<close>

definition zero_item :: HashMapBucketItem where
  "zero_item = \<lparr>key = \<lparr>pkey = 0, skey = 0\<rparr>, data = None\<rparr>"

section \<open>Private functions (src/src/hashmap.c)\<close>

text \<open>The index of the primary bucket: \<^verbatim>\<open>key.pkey % map->capacity\<close>.\<close>

definition bucket_of :: "HashMap \<Rightarrow> HashMapBucketKey \<Rightarrow> nat" where
  "bucket_of m k = unat (pkey k) mod map_capacity m"

text \<open>
  The loop of \<^verbatim>\<open>_get_item\<close>. The result is the index of the slot the returned pointer
  points to, \<open>None\<close> for the null pointer. The parameter \<^verbatim>\<open>empty\<close> is \<open>empty_ok\<close>.
\<close>

function get_item_loop ::
  "HashMapBucket \<Rightarrow> HashMapBucketKey \<Rightarrow> bool \<Rightarrow> nat \<Rightarrow> nat \<Rightarrow> nat option" where
  "get_item_loop node k empty_ok idx i =
     (if i < capacity node then
        (if data (items node ! ((idx + i) mod capacity node)) \<noteq> None \<and>
            KEY_EQU (key (items node ! ((idx + i) mod capacity node))) k
         then Some ((idx + i) mod capacity node)
         else if empty_ok \<and> data (items node ! ((idx + i) mod capacity node)) = None
         then Some ((idx + i) mod capacity node)
         else get_item_loop node k empty_ok idx (i + 1))
      else None)"
  by pat_completeness auto
termination
  by (relation "measure (\<lambda>(node, k, empty_ok, idx, i). capacity node - i)") auto

definition get_item :: "HashMap \<Rightarrow> HashMapBucketKey \<Rightarrow> bool \<Rightarrow> nat option" where
  "get_item m k empty_ok =
     (let node = table m ! bucket_of m k in
      if capacity node = 0 then None
      else get_item_loop node k empty_ok (unat (skey k) mod capacity node) 0)"

text \<open>
  The inner loop of the re-insertion in \<^verbatim>\<open>_grow_node_if_needed\<close>: copy the item into the
  first slot without data, from \<open>idx\<close> on.
\<close>

function reinsert_item ::
  "HashMapBucketItem list \<Rightarrow> nat \<Rightarrow> nat \<Rightarrow> HashMapBucketItem \<Rightarrow> nat \<Rightarrow> HashMapBucketItem list"
  where
  "reinsert_item its cap idx it j =
     (if j < cap then
        (if data (its ! ((idx + j) mod cap)) = None then its[(idx + j) mod cap := it]
         else reinsert_item its cap idx it (j + 1))
      else its)"
  by pat_completeness auto
termination
  by (relation "measure (\<lambda>(its, cap, idx, it, j). cap - j)") auto

text \<open>The outer loop: every entry of the scratch copy, in storage order.\<close>

function reinsert_all ::
  "HashMapBucketItem list \<Rightarrow> HashMapBucketItem list \<Rightarrow> nat \<Rightarrow> nat \<Rightarrow> nat \<Rightarrow> HashMapBucketItem list"
  where
  "reinsert_all scratch its cap old_capacity i =
     (if i < old_capacity then
        reinsert_all scratch
          (reinsert_item its cap (unat (skey (key (scratch ! i))) mod cap) (scratch ! i) 0)
          cap old_capacity (i + 1)
      else its)"
  by pat_completeness auto
termination
  by (relation "measure (\<lambda>(scratch, its, cap, old_capacity, i). old_capacity - i)") auto

text \<open>
  \<^verbatim>\<open>_grow_node_if_needed\<close>. A failed \<^verbatim>\<open>realloc\<close> leaves its block as it was. The entries
  that a grown scratch buffer gains are not initialised by \<^verbatim>\<open>realloc\<close>; they are written
  by the \<^verbatim>\<open>memcpy\<close> that follows before anything reads them, and the model fills them with
  zeroed slots.
\<close>

definition grow_node_if_needed ::
  "allocator \<Rightarrow> HashMap \<Rightarrow> HashMapBucketKey \<Rightarrow> bool \<times> HashMap" where
  "grow_node_if_needed a m k =
     (let b = bucket_of m k; node = table m ! b in
      if count node + 1 < capacity node then (True, m)
      else
        let new_capacity =
              (if capacity node = 0 then HASH_MAP_BUCKET_SIZE else capacity node * 2)
        in
        if capacity node > 0 then
          (if tmp_capacity m < capacity node \<and> \<not> scratch_ok a then (False, m)
           else
             let m1 = (if tmp_capacity m < capacity node
                       then m\<lparr>tmp := take (capacity node)
                                       (tmp m @ replicate (capacity node) zero_item),
                              tmp_capacity := capacity node\<rparr>
                       else m);
                 m2 = m1\<lparr>tmp := take (capacity node) (items node)
                                   @ drop (capacity node) (tmp m1)\<rparr>
             in
             if \<not> items_ok a then (False, m2)
             else
               let old_capacity = capacity node;
                   zeroed = replicate new_capacity zero_item;
                   its = reinsert_all (tmp m2) zeroed new_capacity old_capacity 0
               in (True, m2\<lparr>table := (table m2)
                              [b := node\<lparr>items := its, capacity := new_capacity\<rparr>]\<rparr>))
        else
          (if \<not> items_ok a then (False, m\<lparr>table := (table m)[b := node\<lparr>items := []\<rparr>]\<rparr>)
           else (True, m\<lparr>table := (table m)
                           [b := node\<lparr>items := replicate new_capacity zero_item,
                                      capacity := new_capacity\<rparr>]\<rparr>)))"

text \<open>\<^verbatim>\<open>_compute_key\<close>: the assertion on the key length is an error value.\<close>

definition compute_key :: "HashMap \<Rightarrow> string \<Rightarrow> error + HashMapBucketKey" where
  "compute_key m ks =
     (if length ks > 0 then
        Inr \<lparr>pkey = ucast (hash_function m ks AND 0xFFFFFFFF),
             skey = ucast (drop_bit 32 (hash_function m ks))\<rparr>
      else Inl AssertionFailed)"

section \<open>Public API (src/src/hashmap.c)\<close>

text \<open>
  The sizes of the container header and of one bucket, and the number of values of
  \<^verbatim>\<open>size_t\<close>, on an LP64 platform: six 8-byte fields, and a pointer with two \<^verbatim>\<open>size_t\<close>.
\<close>

definition sizeof_HashMap :: nat where
  "sizeof_HashMap = 48"

definition sizeof_HashMapBucket :: nat where
  "sizeof_HashMapBucket = 24"

definition SIZE_LIMIT :: nat where
  "SIZE_LIMIT = 2 ^ 64"

text \<open>
  The size \<^verbatim>\<open>hashmap_create\<close> passes to \<^verbatim>\<open>calloc\<close>:
  \<^verbatim>\<open>sizeof(*map) + (sizeof(*map->table) * capacity)\<close>, computed in \<^verbatim>\<open>size_t\<close>, where it wraps.
\<close>

definition create_size :: "nat \<Rightarrow> nat" where
  "create_size cap = (sizeof_HashMap + sizeof_HashMapBucket * cap) mod SIZE_LIMIT"

text \<open>
  \<^verbatim>\<open>hashmap_create\<close>: \<open>ok\<close> is the outcome of \<^verbatim>\<open>calloc\<close>; the result \<open>None\<close> is the null
  pointer. The table is zeroed. When the size has wrapped, the block \<^verbatim>\<open>calloc\<close> returns is
  shorter than the header and the \<open>cap\<close> buckets: the code returns a container whose table
  lies outside the block, and whatever touches it is out of bounds. The model has no such
  container; the result is the error \<open>OutOfBounds\<close>.
\<close>

definition hashmap_create ::
  "bool \<Rightarrow> nat \<Rightarrow> (string \<Rightarrow> 64 word) \<Rightarrow> bool \<Rightarrow> error + HashMap option" where
  "hashmap_create ok cap h f =
     (if cap > 0 then
        (if ok then
           (if create_size cap = sizeof_HashMap + sizeof_HashMapBucket * cap then
              Inr (Some \<lparr>table = replicate cap \<lparr>items = [], count = 0, capacity = 0\<rparr>,
                         map_capacity = cap, free_item = f, hash_function = h,
                         tmp = [], tmp_capacity = 0\<rparr>)
            else Inl OutOfBounds)
         else Inr None)
      else Inl AssertionFailed)"

text \<open>
  \<^verbatim>\<open>hashmap_set\<close> returns its boolean, the list of references the destroy callback was
  called on, and the container afterwards.
\<close>

definition hashmap_set ::
  "allocator \<Rightarrow> HashMap \<Rightarrow> string \<Rightarrow> dataref \<Rightarrow> error + (bool \<times> nat list \<times> HashMap)" where
  "hashmap_set a m ks d =
     (case compute_key m ks of
        Inl e \<Rightarrow> Inl e
      | Inr ukey \<Rightarrow>
          (case grow_node_if_needed a m ukey of
             (False, m1) \<Rightarrow> Inr (False, [], m1)
           | (True, m1) \<Rightarrow>
               (case get_item m1 ukey True of
                  None \<Rightarrow> Inr (False, [], m1)
                | Some p \<Rightarrow>
                    let b = bucket_of m1 ukey;
                        node = table m1 ! b;
                        old = data (items node ! p);
                        node1 = (if old = None then node\<lparr>count := count node + 1\<rparr> else node);
                        freed = (case old of None \<Rightarrow> []
                                 | Some r \<Rightarrow> if free_item m1 then [r] else []);
                        node2 = node1\<lparr>items := (items node1)[p := \<lparr>key = ukey, data = d\<rparr>]\<rparr>
                    in Inr (True, freed, m1\<lparr>table := (table m1)[b := node2]\<rparr>))))"

definition hashmap_get :: "HashMap \<Rightarrow> string \<Rightarrow> error + dataref" where
  "hashmap_get m ks =
     (case compute_key m ks of
        Inl e \<Rightarrow> Inl e
      | Inr ukey \<Rightarrow>
          (case get_item m ukey False of
             None \<Rightarrow> Inr None
           | Some p \<Rightarrow> Inr (data (items (table m ! bucket_of m ukey) ! p))))"

text \<open>
  The loop of \<^verbatim>\<open>hashmap_delete\<close>: \<open>None\<close> is \<^verbatim>\<open>return false\<close>, \<open>Some p\<close> the index of the slot
  whose key matched. The body ends with \<^verbatim>\<open>i++\<close> and the loop header has its own.
\<close>

function delete_loop ::
  "HashMapBucket \<Rightarrow> HashMapBucketKey \<Rightarrow> nat \<Rightarrow> nat \<Rightarrow> nat option" where
  "delete_loop node ukey idx i =
     (if i < capacity node then
        (if data (items node ! ((idx + i) mod capacity node)) = None then None
         else if KEY_EQU (key (items node ! ((idx + i) mod capacity node))) ukey
         then Some ((idx + i) mod capacity node)
         else delete_loop node ukey idx (i + 1 + 1))
      else None)"
  by pat_completeness auto
termination
  by (relation "measure (\<lambda>(node, ukey, idx, i). capacity node - i)") auto

text \<open>
  \<^verbatim>\<open>hashmap_delete\<close>. The out-parameter is \<open>None\<close> for a null \<^verbatim>\<open>data\<close> and \<open>Some v\<close> when it
  points to a cell holding \<open>v\<close>; the result carries the cell afterwards.
  \<^verbatim>\<open>node\<close> is a copy of the bucket structure: its \<^verbatim>\<open>items\<close> pointer is the container's
  array, so the writes to the slot reach the container, while \<^verbatim>\<open>node.count--\<close> changes the
  copy (\<open>local\<close>), which is dropped on return.
  \<^verbatim>\<open>ukey.skey % node.capacity\<close> with a capacity of zero is a division by zero.
\<close>

definition hashmap_delete ::
  "HashMap \<Rightarrow> string \<Rightarrow> dataref option \<Rightarrow> error + (bool \<times> dataref option \<times> HashMap)" where
  "hashmap_delete m ks out =
     (case compute_key m ks of
        Inl e \<Rightarrow> Inl e
      | Inr ukey \<Rightarrow>
          let b = bucket_of m ukey; node = table m ! b in
          if capacity node = 0 then Inl DivisionByZero
          else
            (case delete_loop node ukey (unat (skey ukey) mod capacity node) 0 of
               None \<Rightarrow> Inr (False, out, m)
             | Some p \<Rightarrow>
                 let out' = (case out of None \<Rightarrow> None
                             | Some v \<Rightarrow> Some (data (items node ! p)));
                     local = node\<lparr>items := (items node)[p := zero_item],
                                 count := count node - 1\<rparr>
                 in Inr (True, out',
                         m\<lparr>table := (table m)[b := (table m ! b)\<lparr>items := items local\<rparr>]\<rparr>)))"

text \<open>\<^verbatim>\<open>hashmap_iterate\<close>: the calls made to the visitor, in order. The container is only read.\<close>

definition hashmap_iterate :: "HashMap \<Rightarrow> (HashMapBucketKey \<times> nat) list" where
  "hashmap_iterate m =
     concat (map (\<lambda>node.
                    if capacity node = 0 then []
                    else map (\<lambda>it. (key it, the (data it)))
                           (filter (\<lambda>it. data it \<noteq> None) (take (capacity node) (items node))))
                 (take (map_capacity m) (table m)))"

section \<open>Well-formed containers\<close>

text \<open>
  The shape every container has: the table has \<open>map_capacity\<close> buckets and every bucket's
  array has \<open>capacity\<close> slots. The indexing of the model is the code's only there.
\<close>

definition wf_map :: "HashMap \<Rightarrow> bool" where
  "wf_map m =
     (0 < map_capacity m \<and> length (table m) = map_capacity m \<and>
      list_all (\<lambda>node. length (items node) = capacity node) (table m))"


section \<open>Sequences of operations\<close>

datatype op =
  OpSet allocator string dataref
| OpGet string
| OpDelete string "dataref option"
| OpIterate

text \<open>One call of the public API on a container; an error ends the program.\<close>

fun exec :: "HashMap \<Rightarrow> op \<Rightarrow> error + HashMap" where
  "exec m (OpSet a ks d) =
     (case hashmap_set a m ks d of Inl e \<Rightarrow> Inl e | Inr (r, calls, m') \<Rightarrow> Inr m')"
| "exec m (OpGet ks) =
     (case hashmap_get m ks of Inl e \<Rightarrow> Inl e | Inr r \<Rightarrow> Inr m)"
| "exec m (OpDelete ks out) =
     (case hashmap_delete m ks out of Inl e \<Rightarrow> Inl e | Inr (r, out', m') \<Rightarrow> Inr m')"
| "exec m OpIterate = (case hashmap_iterate m of calls \<Rightarrow> Inr m)"

fun run :: "HashMap \<Rightarrow> op list \<Rightarrow> error + HashMap" where
  "run m [] = Inr m"
| "run m (x # xs) = (case exec m x of Inl e \<Rightarrow> Inl e | Inr m' \<Rightarrow> run m' xs)"

section \<open>Probe order\<close>

text \<open>
  The slot a scan of bucket \<open>node\<close> for key \<open>k\<close> examines at offset \<open>j\<close>, and whether it
  holds data under that key.
\<close>

definition probe_slot :: "HashMapBucket \<Rightarrow> HashMapBucketKey \<Rightarrow> nat \<Rightarrow> HashMapBucketItem" where
  "probe_slot node k j =
     items node ! ((unat (skey k) mod capacity node + j) mod capacity node)"

definition matches :: "HashMapBucket \<Rightarrow> HashMapBucketKey \<Rightarrow> nat \<Rightarrow> bool" where
  "matches node k j =
     (data (probe_slot node k j) \<noteq> None \<and> KEY_EQU (key (probe_slot node k j)) k)"

text \<open>The test of one iteration of \<^verbatim>\<open>_get_item\<close>: the slot at offset \<open>j\<close> from \<open>idx\<close> is returned.\<close>

definition hit :: "HashMapBucket \<Rightarrow> HashMapBucketKey \<Rightarrow> bool \<Rightarrow> nat \<Rightarrow> nat \<Rightarrow> bool" where
  "hit node k e idx j =
     (data (items node ! ((idx + j) mod capacity node)) \<noteq> None \<and>
        KEY_EQU (key (items node ! ((idx + j) mod capacity node))) k \<or>
      e \<and> data (items node ! ((idx + j) mod capacity node)) = None)"

section \<open>What a reachable bucket satisfies\<close>

text \<open>
  The stored count is below the capacity; a bucket that was never allocated has neither.
\<close>

definition count_ok :: "HashMapBucket \<Rightarrow> bool" where
  "count_ok node = (count node < capacity node \<or> count node = 0 \<and> capacity node = 0)"

text \<open>How one operation may change a capacity: not at all, from 0 to the base size, or doubled.\<close>

definition capacity_step :: "nat \<Rightarrow> nat \<Rightarrow> bool" where
  "capacity_step c c' =
     (c' = c \<or> c = 0 \<and> c' = HASH_MAP_BUCKET_SIZE \<or> 0 < c \<and> c' = c * 2)"

text \<open>The operation is a \<open>hashmap_set\<close> whose key selects bucket \<open>i\<close>.\<close>

definition targets :: "HashMap \<Rightarrow> op \<Rightarrow> nat \<Rightarrow> bool" where
  "targets m x i =
     (case x of
        OpSet a ks d \<Rightarrow> (case compute_key m ks of Inr k \<Rightarrow> bucket_of m k = i | Inl e \<Rightarrow> False)
      | _ \<Rightarrow> False)"

text \<open>The capacities that doubling from the base size reaches.\<close>

definition doubled :: "nat \<Rightarrow> bool" where
  "doubled c = (c = 0 \<or> (\<exists>n. c = HASH_MAP_BUCKET_SIZE * 2 ^ n))"

definition bucket_inv :: "HashMapBucket \<Rightarrow> bool" where
  "bucket_inv node = (count_ok node \<and> doubled (capacity node))"

section \<open>The contents of a bucket\<close>

text \<open>
  The slot a key's scan starts at, the stored items that hold data, and the positions
  that hold data.
\<close>

definition home :: "nat \<Rightarrow> HashMapBucketItem \<Rightarrow> nat" where
  "home cap it = unat (skey (key it)) mod cap"

definition entries :: "HashMapBucketItem list \<Rightarrow> HashMapBucketItem set" where
  "entries its = set (filter (\<lambda>it. data it \<noteq> None) its)"

definition occupied :: "HashMapBucketItem list \<Rightarrow> nat set" where
  "occupied its = {p. p < length its \<and> data (its ! p) \<noteq> None}"

text \<open>
  Every stored item is reached from its home slot without crossing a slot that holds no
  data: what linear probing without deletions guarantees.
\<close>

definition contiguous :: "HashMapBucketItem list \<Rightarrow> bool" where
  "contiguous its =
     (\<forall>p < length its. data (its ! p) \<noteq> None \<longrightarrow>
        (\<exists>j < length its. p = (home (length its) (its ! p) + j) mod length its \<and>
           (\<forall>j' < j. data (its ! ((home (length its) (its ! p) + j') mod length its)) \<noteq> None)))"

text \<open>A run of \<open>hashmap_set\<close> calls that all return true.\<close>

fun set_all :: "HashMap \<Rightarrow> (allocator \<times> string \<times> nat) list \<Rightarrow> HashMap option" where
  "set_all m [] = Some m"
| "set_all m (x # xs) =
     (case hashmap_set (fst x) m (fst (snd x)) (Some (snd (snd x))) of
        Inl e \<Rightarrow> None
      | Inr r \<Rightarrow> if fst r then set_all (snd (snd r)) xs else None)"

text \<open>
  The capacity \<^verbatim>\<open>_grow_node_if_needed\<close> leaves a bucket with, from its count \<open>n\<close> and
  capacity \<open>c\<close>, and the capacity after \<open>i\<close> insertions of new keys.
\<close>

definition grown :: "nat \<Rightarrow> nat \<Rightarrow> nat" where
  "grown n c = (if n + 1 < c then c else if c = 0 then HASH_MAP_BUCKET_SIZE else c * 2)"

fun grown_by :: "nat \<Rightarrow> nat \<Rightarrow> nat \<Rightarrow> nat" where
  "grown_by n c 0 = c"
| "grown_by n c (Suc i) = grown_by (Suc n) (grown n c) i"

section \<open>The tests' container (src/test/gemini-test.c)\<close>

text \<open>
  \<^verbatim>\<open>collision_hash\<close>, for keys of 7-bit characters: the low half is the first character,
  the high half the sum of the others.
\<close>

definition collision_hash :: "string \<Rightarrow> 64 word" where
  "collision_hash ks =
     (case ks of
        [] \<Rightarrow> 0
      | c # cs \<Rightarrow>
          of_nat (of_char c) OR
          push_bit 32 (ucast (sum_list (map (\<lambda>x. of_nat (of_char x) :: 32 word) cs))))"

definition all_ok :: allocator where
  "all_ok = \<lparr>scratch_ok = True, items_ok = True\<rparr>"

text \<open>\<^verbatim>\<open>hashmap_create(1, collision_hash, counting_free)\<close>, as \<^verbatim>\<open>test_collisions_and_bucket_growth\<close> has it.\<close>

definition test_map :: HashMap where
  "test_map =
     \<lparr>table = [\<lparr>items = [], count = 0, capacity = 0\<rparr>], map_capacity = 1, free_item = True,
      hash_function = collision_hash, tmp = [], tmp_capacity = 0\<rparr>"

text \<open>The container after the operations \<open>ops\<close> on \<open>test_map\<close>.\<close>

definition after :: "op list \<Rightarrow> HashMap" where
  "after ops = (case run test_map ops of Inr m \<Rightarrow> m | Inl e \<Rightarrow> test_map)"

text \<open>Seven distinct keys of one bucket, as the growth test inserts them.\<close>

definition seven_sets :: "op list" where
  "seven_sets =
     [OpSet all_ok ''a_key_0'' (Some 10), OpSet all_ok ''a_key_1'' (Some 20),
      OpSet all_ok ''a_key_2'' (Some 30), OpSet all_ok ''a_key_3'' (Some 40),
      OpSet all_ok ''a_key_4'' (Some 50), OpSet all_ok ''a_key_5'' (Some 60),
      OpSet all_ok ''a_key_6'' (Some 70)]"

text \<open>Nine distinct keys of one bucket.\<close>

definition nine_sets :: "(allocator \<times> string \<times> nat) list" where
  "nine_sets =
     [(all_ok, ''a_key_0'', 10), (all_ok, ''a_key_1'', 20), (all_ok, ''a_key_2'', 30),
      (all_ok, ''a_key_3'', 40), (all_ok, ''a_key_4'', 50), (all_ok, ''a_key_5'', 60),
      (all_ok, ''a_key_6'', 70), (all_ok, ''a_key_7'', 80), (all_ok, ''a_key_8'', 90)]"

text \<open>
  Two keys with the same home slot, four more keys, and the deletion of the first key:
  the second key is now stored behind a slot without data.
\<close>

definition overwrite_ops :: "op list" where
  "overwrite_ops =
     [OpSet all_ok ''a_key_0'' (Some 10), OpSet all_ok ''a_key_8'' (Some 100),
      OpSet all_ok ''a_key_2'' (Some 30), OpSet all_ok ''a_key_3'' (Some 40),
      OpSet all_ok ''a_key_4'' (Some 50), OpSet all_ok ''a_key_5'' (Some 60),
      OpDelete ''a_key_0'' None]"

section \<open>The loops, one iteration at a time\<close>

declare get_item_loop.simps [simp del]
declare reinsert_item.simps [simp del]
declare reinsert_all.simps [simp del]
declare delete_loop.simps [simp del]

lemma get_item_loop_step:
  "get_item_loop node k e idx i =
     (if i < capacity node then
        (if hit node k e idx i then Some ((idx + i) mod capacity node)
         else get_item_loop node k e idx (Suc i))
      else None)"
  by (subst get_item_loop.simps) (auto simp: hit_def)

lemma get_item_loop_first:
  "i \<le> j \<Longrightarrow> j < capacity node \<Longrightarrow> hit node k e idx j \<Longrightarrow>
   (\<And>j'. i \<le> j' \<Longrightarrow> j' < j \<Longrightarrow> \<not> hit node k e idx j') \<Longrightarrow>
   get_item_loop node k e idx i = Some ((idx + j) mod capacity node)"
proof (induction "j - i" arbitrary: i)
  case 0
  then have "i = j" by simp
  with 0 show ?case by (subst get_item_loop_step) simp
next
  case (Suc n)
  then have lt: "i < j" and nh: "\<not> hit node k e idx i" by auto
  have "get_item_loop node k e idx (Suc i) = Some ((idx + j) mod capacity node)"
    using Suc.hyps(2) Suc.prems lt by (intro Suc.hyps(1)) auto
  with lt nh Suc.prems(2) show ?case by (subst get_item_loop_step) simp
qed

lemma get_item_loop_Some:
  "get_item_loop node k e idx i = Some p \<Longrightarrow>
   \<exists>j. i \<le> j \<and> j < capacity node \<and> p = (idx + j) mod capacity node \<and>
       hit node k e idx j \<and> (\<forall>j'. i \<le> j' \<and> j' < j \<longrightarrow> \<not> hit node k e idx j')"
proof (induction "capacity node - i" arbitrary: i)
  case 0
  then show ?case by (subst (asm) get_item_loop_step) simp
next
  case (Suc n)
  then have lt: "i < capacity node" by simp
  show ?case
  proof (cases "hit node k e idx i")
    case True
    with lt Suc.prems have "p = (idx + i) mod capacity node"
      by (subst (asm) get_item_loop_step) simp
    with True lt show ?thesis by (intro exI [of _ i]) auto
  next
    case False
    with lt Suc.prems have "get_item_loop node k e idx (Suc i) = Some p"
      by (subst (asm) get_item_loop_step) simp
    moreover have "n = capacity node - Suc i" using Suc.hyps(2) by simp
    ultimately obtain j where j: "Suc i \<le> j" "j < capacity node" "p = (idx + j) mod capacity node"
      "hit node k e idx j" "\<forall>j'. Suc i \<le> j' \<and> j' < j \<longrightarrow> \<not> hit node k e idx j'"
      using Suc.hyps(1) by blast
    have "\<forall>j'. i \<le> j' \<and> j' < j \<longrightarrow> \<not> hit node k e idx j'"
    proof (intro allI impI)
      fix j' assume "i \<le> j' \<and> j' < j"
      then show "\<not> hit node k e idx j'"
        using False j(5) by (cases "j' = i") auto
    qed
    with j show ?thesis by (intro exI [of _ j]) auto
  qed
qed

lemma get_item_loop_None:
  "get_item_loop node k e idx i = None \<Longrightarrow> i \<le> j \<Longrightarrow> j < capacity node \<Longrightarrow> \<not> hit node k e idx j"
proof (induction "j - i" arbitrary: i)
  case 0
  then have "i = j" by simp
  with 0 show ?case by (subst (asm) get_item_loop_step) (simp split: if_splits)
next
  case (Suc n)
  then have lt: "i < j" by simp
  with Suc.prems have "get_item_loop node k e idx (Suc i) = None"
    by (subst (asm) get_item_loop_step) (simp split: if_splits)
  then show ?case using Suc.hyps(2) Suc.prems lt by (intro Suc.hyps(1)) auto
qed

section \<open>Probe offsets\<close>

lemma probe_mod:
  fixes c :: nat
  shows "idx < c \<Longrightarrow> j < c \<Longrightarrow> (idx + j) mod c = (if idx + j < c then idx + j else idx + j - c)"
  by (simp add: mod_if)

lemma probe_inj:
  fixes c :: nat
  assumes "idx < c" "j < c" "j' < c" "(idx + j) mod c = (idx + j') mod c"
  shows "j = j'"
  using assms by (simp add: probe_mod split: if_splits)

lemma probe_surj:
  fixes c :: nat
  assumes "q < c" "idx < c"
  shows "\<exists>j < c. (idx + j) mod c = q"
proof (cases "idx \<le> q")
  case True
  then have "(idx + (q - idx)) mod c = q" using assms by simp
  moreover have "q - idx < c" using assms by simp
  ultimately show ?thesis by blast
next
  case False
  then have "(idx + (q + c - idx)) mod c = q" using assms by (simp add: probe_mod)
  moreover have "q + c - idx < c" using assms False by simp
  ultimately show ?thesis by blast
qed

section \<open>Growth keeps the shape of the container\<close>

lemma reinsert_item_step:
  "reinsert_item its cap idx it j =
     (if j < cap then
        (if data (its ! ((idx + j) mod cap)) = None then its[(idx + j) mod cap := it]
         else reinsert_item its cap idx it (Suc j))
      else its)"
  by (subst reinsert_item.simps) simp

lemma reinsert_all_step:
  "reinsert_all scratch its cap old_capacity i =
     (if i < old_capacity then
        reinsert_all scratch
          (reinsert_item its cap (unat (skey (key (scratch ! i))) mod cap) (scratch ! i) 0)
          cap old_capacity (Suc i)
      else its)"
  by (subst reinsert_all.simps) simp

lemma length_reinsert_item [simp]: "length (reinsert_item its cap idx it j) = length its"
proof (induction "cap - j" arbitrary: j)
  case 0
  then show ?case by (subst reinsert_item_step) simp
next
  case (Suc n)
  then have "length (reinsert_item its cap idx it (Suc j)) = length its" by simp
  then show ?case by (subst reinsert_item_step) simp
qed

lemma length_reinsert_all [simp]:
  "length (reinsert_all scratch its cap old_capacity i) = length its"
proof (induction "old_capacity - i" arbitrary: i its)
  case 0
  then show ?case by (subst reinsert_all_step) simp
next
  case (Suc n)
  then have "length (reinsert_all scratch
          (reinsert_item its cap (unat (skey (key (scratch ! i))) mod cap) (scratch ! i) 0)
          cap old_capacity (Suc i)) = length its" by simp
  then show ?case by (subst reinsert_all_step) simp
qed

lemma grow_fields:
  "grow_node_if_needed a m k = (r, m1) \<Longrightarrow>
   map_capacity m1 = map_capacity m \<and> hash_function m1 = hash_function m \<and>
   free_item m1 = free_item m \<and> length (table m1) = length (table m)"
  by (auto simp: grow_node_if_needed_def Let_def split: if_splits)

lemma list_all_update:
  "list_all P xs \<Longrightarrow> P x \<Longrightarrow> list_all P (xs[b := x])"
  by (induction xs arbitrary: b) (auto split: nat.splits)

lemma wf_map_nth:
  "wf_map m \<Longrightarrow> b < map_capacity m \<Longrightarrow> length (items (table m ! b)) = capacity (table m ! b)"
  by (simp add: wf_map_def list_all_length)

lemma wf_map_bucket_of: "wf_map m \<Longrightarrow> bucket_of m k < length (table m)"
  by (simp add: wf_map_def bucket_of_def)

lemma grow_wf:
  assumes "wf_map m" "grow_node_if_needed a m k = (r, m1)"
  shows "wf_map m1"
proof -
  have b: "bucket_of m k < map_capacity m" using assms(1) by (simp add: wf_map_def bucket_of_def)
  have len: "length (items (table m ! bucket_of m k)) = capacity (table m ! bucket_of m k)"
    using wf_map_nth [OF assms(1) b] .
  show ?thesis
    using assms len
    by (auto simp: grow_node_if_needed_def Let_def wf_map_def HASH_MAP_BUCKET_SIZE_def
          intro!: list_all_update split: if_splits)
qed

lemma compute_key_cong:
  "hash_function m1 = hash_function m \<Longrightarrow> compute_key m1 ks = compute_key m ks"
  by (simp add: compute_key_def)

lemma bucket_of_cong:
  "map_capacity m1 = map_capacity m \<Longrightarrow> bucket_of m1 k = bucket_of m k"
  by (simp add: bucket_of_def)

lemma KEY_EQU_refl [simp]: "KEY_EQU k k"
  by (simp add: KEY_EQU_def)

lemma KEY_EQU_eq: "KEY_EQU a b \<longleftrightarrow> a = b"
  by (auto simp: KEY_EQU_def)

section \<open>What the operations change\<close>

lemma grow_False_table:
  assumes wf: "wf_map m" and g: "grow_node_if_needed a m k = (False, m1)"
  shows "table m1 = table m"
proof -
  have b: "bucket_of m k < map_capacity m" using wf by (simp add: wf_map_def bucket_of_def)
  have len: "length (items (table m ! bucket_of m k)) = capacity (table m ! bucket_of m k)"
    using wf_map_nth [OF wf b] .
  have "(table m)[bucket_of m k := (table m ! bucket_of m k)\<lparr>items := []\<rparr>] = table m"
    if "capacity (table m ! bucket_of m k) = 0"
  proof -
    have "items (table m ! bucket_of m k) = []" using that len by simp
    then have "(table m ! bucket_of m k)\<lparr>items := []\<rparr> = table m ! bucket_of m k"
      by (cases "table m ! bucket_of m k") simp
    then show ?thesis by simp
  qed
  then show ?thesis
    using g by (auto simp: grow_node_if_needed_def Let_def split: if_splits)
qed

lemma grow_bucket:
  assumes g: "grow_node_if_needed a m k = (r, m1)" and b: "bucket_of m k < length (table m)"
  shows "count (table m1 ! bucket_of m k) = count (table m ! bucket_of m k) \<and>
         capacity_step (capacity (table m ! bucket_of m k)) (capacity (table m1 ! bucket_of m k)) \<and>
         (r \<and> count_ok (table m ! bucket_of m k) \<longrightarrow>
            count (table m1 ! bucket_of m k) + 1 < capacity (table m1 ! bucket_of m k)) \<and>
         (\<not> r \<longrightarrow> capacity (table m1 ! bucket_of m k) = capacity (table m ! bucket_of m k))"
  using g b
  by (auto simp: grow_node_if_needed_def Let_def capacity_step_def count_ok_def
        HASH_MAP_BUCKET_SIZE_def split: if_splits)

lemma grow_others:
  assumes g: "grow_node_if_needed a m k = (r, m1)" and i: "i \<noteq> bucket_of m k"
  shows "table m1 ! i = table m ! i"
  using g i by (auto simp: grow_node_if_needed_def Let_def split: if_splits)

lemma set_effect:
  assumes wf: "wf_map m" and s: "hashmap_set a m ks d = Inr (r, calls, m')"
  obtains k where "compute_key m ks = Inr k"
    and "map_capacity m' = map_capacity m" and "hash_function m' = hash_function m"
    and "free_item m' = free_item m"
    and "wf_map m'"
    and "\<And>i. i \<noteq> bucket_of m k \<Longrightarrow> table m' ! i = table m ! i"
    and "capacity_step (capacity (table m ! bucket_of m k)) (capacity (table m' ! bucket_of m k))"
    and "count_ok (table m ! bucket_of m k) \<Longrightarrow> count_ok (table m' ! bucket_of m k)"
proof -
  from s obtain k where ck: "compute_key m ks = Inr k"
    by (auto simp: hashmap_set_def split: sum.splits)
  obtain g m1 where grow: "grow_node_if_needed a m k = (g, m1)"
    by (cases "grow_node_if_needed a m k")
  note f = grow_fields [OF grow]
  have wf1: "wf_map m1" using grow_wf [OF wf grow] .
  have b: "bucket_of m k < length (table m)" using wf by (rule wf_map_bucket_of)
  have b1: "bucket_of m1 k = bucket_of m k" using f by (simp add: bucket_of_def)
  note gb = grow_bucket [OF grow b]
  let ?b = "bucket_of m k"
  show ?thesis
  proof (cases "g \<and> get_item m1 k True \<noteq> None")
    case False
    then have m': "m' = m1" using s ck grow
      by (auto simp: hashmap_set_def split: option.splits bool.splits)
    have "count_ok (table m1 ! ?b)" if "count_ok (table m ! ?b)"
    proof (cases g)
      case True
      then show ?thesis using gb that by (auto simp: count_ok_def)
    next
      case False
      then show ?thesis using gb that by (auto simp: count_ok_def)
    qed
    then show ?thesis
      using that [OF ck] f wf1 gb grow_others [OF grow] by (simp add: m')
  next
    case True
    then obtain p where gi: "get_item m1 k True = Some p" and g: "g" by auto
    let ?node = "table m1 ! ?b"
    have loop: "get_item_loop ?node k True (unat (skey k) mod capacity ?node) 0 = Some p"
      using gi b1 by (auto simp: get_item_def Let_def split: if_splits)
    from get_item_loop_Some [OF loop] have p: "p < capacity ?node" by auto
    define node1 where "node1 = (if data (items ?node ! p) = None then ?node\<lparr>count := count ?node + 1\<rparr> else ?node)"
    define node2 where "node2 = node1\<lparr>items := (items node1)[p := \<lparr>key = k, data = d\<rparr>]\<rparr>"
    have m': "m' = m1\<lparr>table := (table m1)[?b := node2]\<rparr>"
      using s ck grow gi g b1 by (simp add: hashmap_set_def Let_def node1_def node2_def)
    have b1': "?b < length (table m1)" using b f by simp
    have nth: "table m' ! ?b = node2" using b1' by (simp add: m')
    have cap2: "capacity node2 = capacity ?node" by (simp add: node2_def node1_def)
    have cnt2: "count node2 \<le> count ?node + 1" by (simp add: node2_def node1_def)
    have len2: "length (items node2) = length (items ?node)" by (simp add: node2_def node1_def)
    have len1: "length (items ?node) = capacity ?node"
      using wf1 b1' by (simp add: wf_map_def list_all_length)
    have wf': "wf_map m'"
      using wf1 len1 len2 cap2 by (auto simp: m' wf_map_def intro!: list_all_update)
    have ok: "count_ok node2" if "count_ok (table m ! ?b)"
      using gb g that cap2 cnt2 by (auto simp: count_ok_def)
    have others: "table m' ! i = table m ! i" if "i \<noteq> ?b" for i
      using that grow_others [OF grow that] by (simp add: m')
    show ?thesis
      using that [OF ck _ _ _ wf' others] f gb ok by (simp add: nth cap2) (simp add: m')
  qed
qed


lemma delete_effect:
  assumes wf: "wf_map m" and d: "hashmap_delete m ks out = Inr (r, out', m')"
  shows "map_capacity m' = map_capacity m \<and> hash_function m' = hash_function m \<and>
         free_item m' = free_item m \<and> wf_map m' \<and>
         (\<forall>i. capacity (table m' ! i) = capacity (table m ! i) \<and>
              count (table m' ! i) = count (table m ! i))"
proof -
  from d obtain k where ck: "compute_key m ks = Inr k"
    by (auto simp: hashmap_delete_def split: sum.splits)
  let ?b = "bucket_of m k"
  let ?node = "table m ! ?b"
  have b: "?b < length (table m)" using wf by (rule wf_map_bucket_of)
  have len: "length (items ?node) = capacity ?node"
    using wf b by (simp add: wf_map_def list_all_length)
  show ?thesis
  proof (cases r)
    case False
    then have "m' = m" using d
      by (auto simp: hashmap_delete_def Let_def split: sum.splits option.splits if_splits)
    then show ?thesis using wf by simp
  next
    case True
    then obtain p where
      m': "m' = m\<lparr>table := (table m)[?b := ?node\<lparr>items := (items ?node)[p := zero_item]\<rparr>]\<rparr>"
      using d ck by (auto simp: hashmap_delete_def Let_def split: option.splits if_splits)
    have "wf_map m'"
      using wf len by (auto simp: m' wf_map_def intro!: list_all_update)
    moreover have "capacity (table m' ! i) = capacity (table m ! i) \<and>
        count (table m' ! i) = count (table m ! i)" for i
      using b by (cases "i = ?b") (simp_all add: m')
    ultimately show ?thesis by (simp add: m')
  qed
qed

lemma capacity_step_doubled: "capacity_step c c' \<Longrightarrow> doubled c \<Longrightarrow> doubled c'"
proof -
  assume st: "capacity_step c c'" and d: "doubled c"
  consider "c' = c" | "c = 0" "c' = HASH_MAP_BUCKET_SIZE" | "0 < c" "c' = c * 2"
    using st by (auto simp: capacity_step_def)
  then show "doubled c'"
  proof cases
    case 1
    then show ?thesis using d by simp
  next
    case 2
    then have "c' = HASH_MAP_BUCKET_SIZE * 2 ^ 0" by simp
    then show ?thesis unfolding doubled_def by blast
  next
    case 3
    then obtain n where "c = HASH_MAP_BUCKET_SIZE * 2 ^ n" using d by (auto simp: doubled_def)
    then have "c' = HASH_MAP_BUCKET_SIZE * 2 ^ Suc n" using 3 by simp
    then show ?thesis unfolding doubled_def by blast
  qed
qed

lemma exec_step:
  assumes wf: "wf_map m" and inv: "list_all bucket_inv (table m)" and e: "exec m x = Inr m'"
  shows "wf_map m' \<and> list_all bucket_inv (table m') \<and>
         (\<forall>i < map_capacity m.
            if targets m x i
            then capacity_step (capacity (table m ! i)) (capacity (table m' ! i))
            else capacity (table m' ! i) = capacity (table m ! i))"
proof (cases x)
  case (OpSet a ks d)
  with e obtain r calls where s: "hashmap_set a m ks d = Inr (r, calls, m')"
    by (auto split: sum.splits)
  from set_effect [OF wf s] obtain k where k: "compute_key m ks = Inr k"
    "map_capacity m' = map_capacity m" "wf_map m'"
    "\<And>i. i \<noteq> bucket_of m k \<Longrightarrow> table m' ! i = table m ! i"
    "capacity_step (capacity (table m ! bucket_of m k)) (capacity (table m' ! bucket_of m k))"
    "count_ok (table m ! bucket_of m k) \<Longrightarrow> count_ok (table m' ! bucket_of m k)"
    by blast
  have len: "length (table m') = length (table m)" using wf k(2,3) by (simp add: wf_map_def)
  have "bucket_inv (table m' ! i)" if "i < length (table m)" for i
  proof (cases "i = bucket_of m k")
    case True
    have "bucket_inv (table m ! i)" using inv that by (simp add: list_all_length)
    then show ?thesis using k(5,6) True capacity_step_doubled by (auto simp: bucket_inv_def)
  next
    case False
    then show ?thesis using k(4) inv that by (simp add: list_all_length)
  qed
  then have "list_all bucket_inv (table m')" by (simp add: list_all_length len)
  moreover have "if targets m x i
            then capacity_step (capacity (table m ! i)) (capacity (table m' ! i))
            else capacity (table m' ! i) = capacity (table m ! i)" for i
    using k(1,4,5) OpSet by (auto simp: targets_def)
  ultimately show ?thesis using k(3) by simp
next
  case (OpGet ks)
  with e have "m' = m" by (auto split: sum.splits)
  then show ?thesis using wf inv OpGet by (simp add: targets_def)
next
  case (OpDelete ks out)
  with e obtain r out' where d: "hashmap_delete m ks out = Inr (r, out', m')"
    by (auto split: sum.splits)
  note de = delete_effect [OF wf d]
  have len: "length (table m') = length (table m)" using wf de by (simp add: wf_map_def)
  have "list_all bucket_inv (table m')"
    using inv de by (simp add: list_all_length len bucket_inv_def count_ok_def)
  then show ?thesis using de OpDelete by (simp add: targets_def)
next
  case OpIterate
  with e have "m' = m" by simp
  then show ?thesis using wf inv OpIterate by (simp add: targets_def)
qed

lemma run_inv:
  "wf_map m \<Longrightarrow> list_all bucket_inv (table m) \<Longrightarrow> run m ops = Inr m' \<Longrightarrow>
   wf_map m' \<and> list_all bucket_inv (table m')"
proof (induction ops arbitrary: m)
  case Nil
  then show ?case by simp
next
  case (Cons x xs)
  from Cons.prems(3) obtain m1 where e: "exec m x = Inr m1" and r: "run m1 xs = Inr m'"
    by (auto split: sum.splits)
  from exec_step [OF Cons.prems(1,2) e] have "wf_map m1" "list_all bucket_inv (table m1)"
    by simp_all
  then show ?case using Cons.IH r by blast
qed

lemma create_inv:
  assumes "hashmap_create ok cap h f = Inr (Some m0)"
  shows "wf_map m0 \<and> list_all bucket_inv (table m0) \<and> list_all (\<lambda>node. capacity node = 0) (table m0)"
  using assms
  by (auto simp: hashmap_create_def wf_map_def bucket_inv_def count_ok_def doubled_def
        list_all_length split: if_splits)

section \<open>Re-insertion keeps the stored items\<close>

lemma reinsert_item_first:
  "i \<le> j \<Longrightarrow> j < cap \<Longrightarrow> data (its ! ((idx + j) mod cap)) = None \<Longrightarrow>
   (\<And>j'. i \<le> j' \<Longrightarrow> j' < j \<Longrightarrow> data (its ! ((idx + j') mod cap)) \<noteq> None) \<Longrightarrow>
   reinsert_item its cap idx it i = its[(idx + j) mod cap := it]"
proof (induction "j - i" arbitrary: i)
  case 0
  then have "i = j" by simp
  with 0 show ?case by (subst reinsert_item_step) simp
next
  case (Suc n)
  then have lt: "i < j" and occ: "data (its ! ((idx + i) mod cap)) \<noteq> None" by auto
  have "reinsert_item its cap idx it (Suc i) = its[(idx + j) mod cap := it]"
    using Suc.hyps(2) Suc.prems lt by (intro Suc.hyps(1)) auto
  with lt occ Suc.prems(2) show ?case by (subst reinsert_item_step) auto
qed

lemma vacant_offset:
  assumes len: "length its = cap" and idx: "idx < cap"
    and vac: "\<exists>p<cap. data (its ! p) = None"
  obtains j where "j < cap" "data (its ! ((idx + j) mod cap)) = None"
    "\<And>j'. j' < j \<Longrightarrow> data (its ! ((idx + j') mod cap)) \<noteq> None"
proof -
  from vac obtain p where p: "p < cap" "data (its ! p) = None" by blast
  from probe_surj [OF p(1) idx] obtain j0 where j0: "j0 < cap" "(idx + j0) mod cap = p" by blast
  let ?V = "\<lambda>j. data (its ! ((idx + j) mod cap)) = None"
  have "?V j0" using j0 p by simp
  then obtain j where j: "?V j" "\<forall>j'<j. \<not> ?V j'"
    using exists_least_iff [of ?V] by blast
  have "j \<le> j0" using j(2) \<open>?V j0\<close> by (meson not_le)
  then have "j < cap" using j0(1) by simp
  then show ?thesis using j that by blast
qed

lemma in_entries_iff:
  "x \<in> entries its \<longleftrightarrow> (\<exists>q<length its. its ! q = x \<and> data x \<noteq> None)"
  by (auto simp: entries_def in_set_conv_nth)

lemma entries_update_vacant:
  assumes p: "p < length its" and vac: "data (its ! p) = None"
  shows "entries (its[p := it]) = (if data it = None then entries its else insert it (entries its))"
proof -
  have "x \<in> entries (its[p := it]) \<longleftrightarrow>
        x \<in> (if data it = None then entries its else insert it (entries its))" for x
  proof
    assume "x \<in> entries (its[p := it])"
    then obtain q where q: "q < length its" "its[p := it] ! q = x" "data x \<noteq> None"
      by (auto simp: in_entries_iff)
    show "x \<in> (if data it = None then entries its else insert it (entries its))"
    proof (cases "q = p")
      case True
      then have "x = it" using q p by simp
      then show ?thesis using q(3) by auto
    next
      case False
      then have "its ! q = x" using q by simp
      then have "x \<in> entries its" using q by (auto simp: in_entries_iff)
      then show ?thesis by simp
    qed
  next
    assume a: "x \<in> (if data it = None then entries its else insert it (entries its))"
    show "x \<in> entries (its[p := it])"
    proof (cases "x \<in> entries its")
      case True
      then obtain q where q: "q < length its" "its ! q = x" "data x \<noteq> None"
        by (auto simp: in_entries_iff)
      then have "q \<noteq> p" using vac by auto
      then have "its[p := it] ! q = x" using q by simp
      then show ?thesis using q by (auto simp: in_entries_iff)
    next
      case False
      then have "x = it" "data it \<noteq> None" using a by (auto split: if_splits)
      then show ?thesis using p by (auto simp: in_entries_iff intro!: exI [of _ p])
    qed
  qed
  then show ?thesis by blast
qed

lemma finite_occupied [simp]: "finite (occupied its)"
  by (simp add: occupied_def)

lemma occupied_update_subset: "occupied (its[p := it]) \<subseteq> insert p (occupied its)"
  by (auto simp: occupied_def nth_list_update split: if_splits)

lemma card_occupied_update: "card (occupied (its[p := it])) \<le> Suc (card (occupied its))"
proof -
  have "card (occupied (its[p := it])) \<le> card (insert p (occupied its))"
    by (intro card_mono occupied_update_subset) simp
  also have "\<dots> \<le> Suc (card (occupied its))" by (simp add: card_insert_if)
  finally show ?thesis .
qed

lemma vacancy:
  assumes "card (occupied its) < length its"
  shows "\<exists>p<length its. data (its ! p) = None"
proof (rule ccontr)
  assume "\<not> ?thesis"
  then have "occupied its = {..<length its}" by (auto simp: occupied_def)
  then show False using assms by simp
qed

lemma contiguous_update:
  assumes c: "contiguous its" and j: "j < length its"
    and p: "p = (home (length its) it + j) mod length its"
    and vac: "data (its ! p) = None"
    and before: "\<And>j'. j' < j \<Longrightarrow> data (its ! ((home (length its) it + j') mod length its)) \<noteq> None"
  shows "contiguous (its[p := it])"
  unfolding contiguous_def
proof (intro allI impI)
  let ?n = "length its"
  let ?its' = "its[p := it]"
  have keep: "?its' ! s = its ! s" if "data (its ! s) \<noteq> None" for s
    using that vac by (cases "s = p") auto
  have "0 < ?n" using j by (cases its) auto
  then have pn: "p < ?n" using p by simp
  fix q assume q: "q < length ?its'" and occ: "data (?its' ! q) \<noteq> None"
  show "\<exists>j<length ?its'. q = (home (length ?its') (?its' ! q) + j) mod length ?its' \<and>
          (\<forall>j'<j. data (?its' ! ((home (length ?its') (?its' ! q) + j') mod length ?its')) \<noteq> None)"
  proof (cases "q = p")
    case True
    then have it: "?its' ! q = it" using pn by simp
    have "\<forall>j'<j. data (?its' ! ((home ?n it + j') mod ?n)) \<noteq> None"
      using before keep by simp
    then show ?thesis using j p True it by auto
  next
    case False
    then have same: "?its' ! q = its ! q" by simp
    with occ q c obtain jq where jq: "jq < ?n" "q = (home ?n (its ! q) + jq) mod ?n"
      "\<forall>j'<jq. data (its ! ((home ?n (its ! q) + j') mod ?n)) \<noteq> None"
      unfolding contiguous_def by auto
    have "\<forall>j'<jq. data (?its' ! ((home ?n (its ! q) + j') mod ?n)) \<noteq> None"
      using jq(3) keep by simp
    then show ?thesis using jq(1,2) same by auto
  qed
qed

lemma reinsert_all_inv:
  assumes "length its = cap" "contiguous its" "card (occupied its) + (old - i) < cap"
  shows "length (reinsert_all scratch its cap old i) = cap \<and>
         contiguous (reinsert_all scratch its cap old i) \<and>
         entries (reinsert_all scratch its cap old i) =
           entries its \<union> {scratch ! n | n. i \<le> n \<and> n < old \<and> data (scratch ! n) \<noteq> None}"
  using assms
proof (induction "old - i" arbitrary: i its)
  case 0
  then have "reinsert_all scratch its cap old i = its"
    by (subst reinsert_all_step) simp
  moreover have "{scratch ! n | n. i \<le> n \<and> n < old \<and> data (scratch ! n) \<noteq> None} = {}"
    using 0 by auto
  ultimately show ?case using 0 by auto
next
  case (Suc n)
  then have lt: "i < old" by simp
  let ?it = "scratch ! i"
  let ?idx = "unat (skey (key ?it)) mod cap"
  have cap: "0 < cap" using Suc.prems(3) by simp
  then have idx: "?idx < cap" by simp
  have "card (occupied its) < length its" using Suc.prems(1,3) lt by simp
  then have vac: "\<exists>p<cap. data (its ! p) = None" using vacancy Suc.prems(1) by blast
  from vacant_offset [OF Suc.prems(1) idx vac] obtain j where j: "j < cap"
    "data (its ! ((?idx + j) mod cap)) = None"
    "\<And>j'. j' < j \<Longrightarrow> data (its ! ((?idx + j') mod cap)) \<noteq> None"
    by blast
  let ?p = "(?idx + j) mod cap"
  let ?its1 = "its[?p := ?it]"
  have r1: "reinsert_item its cap ?idx ?it 0 = ?its1"
    using j by (intro reinsert_item_first) auto
  have p: "?p < length its" using cap Suc.prems(1) by simp
  have len1: "length ?its1 = cap" using Suc.prems(1) by simp
  have c1: "contiguous ?its1"
    using Suc.prems(1,2) j by (intro contiguous_update [where j = j]) (auto simp: home_def)
  have card1: "card (occupied ?its1) + (old - Suc i) < cap"
    using card_occupied_update [of its ?p ?it] Suc.prems(3) lt by simp
  have n: "n = old - Suc i" using Suc.hyps(2) by simp
  note IH = Suc.hyps(1) [OF n len1 c1 card1]
  have e1: "entries ?its1 = (if data ?it = None then entries its else insert ?it (entries its))"
    using entries_update_vacant [OF p j(2)] .
  have split: "{scratch ! n | n. i \<le> n \<and> n < old \<and> data (scratch ! n) \<noteq> None} =
      (if data ?it = None then {} else {?it}) \<union>
      {scratch ! n | n. Suc i \<le> n \<and> n < old \<and> data (scratch ! n) \<noteq> None}"
  proof -
    have "i \<le> n \<longleftrightarrow> n = i \<or> Suc i \<le> n" for n by auto
    then show ?thesis using lt by auto
  qed
  have step: "reinsert_all scratch its cap old i = reinsert_all scratch ?its1 cap old (Suc i)"
    using lt r1 by (subst reinsert_all_step) simp
  show ?case
    unfolding step using IH e1 split by auto
qed

lemma entries_zeroed [simp]: "entries (replicate n zero_item) = {}"
  by (auto simp: entries_def zero_item_def)

lemma occupied_zeroed [simp]: "occupied (replicate n zero_item) = {}"
  by (auto simp: occupied_def zero_item_def)

lemma contiguous_zeroed [simp]: "contiguous (replicate n zero_item)"
  by (simp add: contiguous_def zero_item_def)

lemma entries_Nil [simp]: "entries [] = {}"
  by (simp add: entries_def)

lemma grow_doubles:
  assumes wf: "wf_map m" and g: "grow_node_if_needed a m k = (True, m1)"
    and cap: "0 < capacity (table m ! bucket_of m k)"
    and full: "\<not> count (table m ! bucket_of m k) + 1 < capacity (table m ! bucket_of m k)"
  shows "\<exists>scratch.
           (\<forall>n < capacity (table m ! bucket_of m k).
              scratch ! n = items (table m ! bucket_of m k) ! n) \<and>
           table m1 ! bucket_of m k =
             (table m ! bucket_of m k)
               \<lparr>items := reinsert_all scratch
                           (replicate (capacity (table m ! bucket_of m k) * 2) zero_item)
                           (capacity (table m ! bucket_of m k) * 2)
                           (capacity (table m ! bucket_of m k)) 0,
                capacity := capacity (table m ! bucket_of m k) * 2\<rparr>"
proof -
  let ?b = "bucket_of m k"
  let ?node = "table m ! ?b"
  let ?c = "capacity ?node"
  let ?tmp1 = "if tmp_capacity m < ?c then take ?c (tmp m @ replicate ?c zero_item) else tmp m"
  let ?scratch = "take ?c (items ?node) @ drop ?c ?tmp1"
  have b: "?b < length (table m)" using wf by (rule wf_map_bucket_of)
  have len: "length (items ?node) = ?c"
    using wf b by (simp add: wf_map_def list_all_length)
  have nth: "\<forall>n < ?c. ?scratch ! n = items ?node ! n"
    using len by (simp add: nth_append)
  have "table m1 ! ?b =
      ?node\<lparr>items := reinsert_all ?scratch (replicate (?c * 2) zero_item) (?c * 2) ?c 0,
             capacity := ?c * 2\<rparr>"
    using g cap full b
    by (auto simp: grow_node_if_needed_def Let_def split: if_splits)
  with nth show ?thesis by blast
qed

lemma grow_entries:
  assumes wf: "wf_map m" and g: "grow_node_if_needed a m k = (True, m1)"
  shows "entries (items (table m1 ! bucket_of m k)) = entries (items (table m ! bucket_of m k)) \<and>
         (capacity (table m1 ! bucket_of m k) \<noteq> capacity (table m ! bucket_of m k) \<longrightarrow>
            contiguous (items (table m1 ! bucket_of m k)))"
proof -
  let ?b = "bucket_of m k"
  let ?node = "table m ! ?b"
  let ?c = "capacity ?node"
  have b: "?b < length (table m)" using wf by (rule wf_map_bucket_of)
  have len: "length (items ?node) = ?c"
    using wf b by (simp add: wf_map_def list_all_length)
  consider (room) "count ?node + 1 < ?c" | (fresh) "\<not> count ?node + 1 < ?c" "?c = 0"
    | (double) "\<not> count ?node + 1 < ?c" "0 < ?c"
    by blast
  then show ?thesis
  proof cases
    case room
    then have "m1 = m" using g by (simp add: grow_node_if_needed_def Let_def)
    then show ?thesis by simp
  next
    case fresh
    then have "items ?node = []" using len by simp
    moreover have "items (table m1 ! ?b) = replicate HASH_MAP_BUCKET_SIZE zero_item"
      using g fresh b by (auto simp: grow_node_if_needed_def Let_def split: if_splits)
    ultimately show ?thesis by simp
  next
    case double
    from grow_doubles [OF wf g double(2,1)] obtain scratch where
      sc: "\<forall>n < ?c. scratch ! n = items ?node ! n"
      and t: "table m1 ! ?b = ?node\<lparr>items := reinsert_all scratch (replicate (?c * 2) zero_item)
                  (?c * 2) ?c 0, capacity := ?c * 2\<rparr>"
      by blast
    have "card (occupied (replicate (?c * 2) zero_item)) + (?c - 0) < ?c * 2"
      using double(2) by simp
    from reinsert_all_inv [OF _ _ this, of scratch]
    have c: "contiguous (reinsert_all scratch (replicate (?c * 2) zero_item) (?c * 2) ?c 0)"
      and e: "entries (reinsert_all scratch (replicate (?c * 2) zero_item) (?c * 2) ?c 0) =
          {scratch ! n | n. n < ?c \<and> data (scratch ! n) \<noteq> None}"
      by simp_all
    have "{scratch ! n | n. n < ?c \<and> data (scratch ! n) \<noteq> None} =
        {items ?node ! n | n. n < ?c \<and> data (items ?node ! n) \<noteq> None}"
      using sc by (intro Collect_cong) (metis (no_types))
    also have "\<dots> = entries (items ?node)"
    proof -
      have "x \<in> {items ?node ! n | n. n < ?c \<and> data (items ?node ! n) \<noteq> None} \<longleftrightarrow>
            x \<in> entries (items ?node)" for x
        unfolding in_entries_iff len by blast
      then show ?thesis by blast
    qed
    finally have "{scratch ! n | n. n < ?c \<and> data (scratch ! n) \<noteq> None} = entries (items ?node)" .
    then show ?thesis using c e by (simp add: t)
  qed
qed

section \<open>Insertion of new keys\<close>

lemma grow_True_capacity:
  assumes g: "grow_node_if_needed a m k = (True, m1)" and b: "bucket_of m k < length (table m)"
  shows "capacity (table m1 ! bucket_of m k) =
         grown (count (table m ! bucket_of m k)) (capacity (table m ! bucket_of m k))"
  using g b
  by (auto simp: grow_node_if_needed_def Let_def grown_def split: if_splits)

lemma set_fresh_key:
  assumes wf: "wf_map m"
    and s: "hashmap_set a m ks (Some d) = Inr (True, calls, m')"
    and ck: "compute_key m ks = Inr k"
    and fresh: "\<forall>it \<in> entries (items (table m ! bucket_of m k)). key it \<noteq> k"
  shows "entries (items (table m' ! bucket_of m k)) =
           insert \<lparr>key = k, data = Some d\<rparr> (entries (items (table m ! bucket_of m k))) \<and>
         count (table m' ! bucket_of m k) = count (table m ! bucket_of m k) + 1 \<and>
         capacity (table m' ! bucket_of m k) =
           grown (count (table m ! bucket_of m k)) (capacity (table m ! bucket_of m k))"
proof -
  let ?b = "bucket_of m k"
  from s ck obtain m1 where grow: "grow_node_if_needed a m k = (True, m1)"
    by (cases "grow_node_if_needed a m k") (auto simp: hashmap_set_def split: bool.splits)
  from s ck grow obtain p where gi: "get_item m1 k True = Some p"
    by (auto simp: hashmap_set_def split: option.splits)
  note f = grow_fields [OF grow]
  have wf1: "wf_map m1" using grow_wf [OF wf grow] .
  have b: "?b < length (table m)" using wf by (rule wf_map_bucket_of)
  have b1: "bucket_of m1 k = ?b" using f by (simp add: bucket_of_def)
  have b1': "?b < length (table m1)" using b f by simp
  let ?node = "table m1 ! ?b"
  let ?idx = "unat (skey k) mod capacity ?node"
  have loop: "get_item_loop ?node k True ?idx 0 = Some p"
    using gi b1 by (auto simp: get_item_def Let_def split: if_splits)
  have len: "length (items ?node) = capacity ?node"
    using wf1 b1' by (simp add: wf_map_def list_all_length)
  from get_item_loop_Some [OF loop] obtain j where
    j: "j < capacity ?node" "p = (?idx + j) mod capacity ?node" "hit ?node k True ?idx j"
    by auto
  have p: "p < length (items ?node)" using j(1,2) len by simp
  note ge = grow_entries [OF wf grow]
  have vac: "data (items ?node ! p) = None"
  proof (rule ccontr)
    assume occ: "data (items ?node ! p) \<noteq> None"
    then have "KEY_EQU (key (items ?node ! p)) k" using j(2,3) by (auto simp: hit_def)
    moreover have "items ?node ! p \<in> entries (items ?node)"
      using occ p unfolding in_entries_iff by blast
    then have "items ?node ! p \<in> entries (items (table m ! ?b))"
      using ge by simp
    ultimately show False using fresh by (auto simp: KEY_EQU_eq)
  qed
  have m': "m' = m1\<lparr>table := (table m1)[?b :=
      ?node\<lparr>count := count ?node + 1, items := (items ?node)[p := \<lparr>key = k, data = Some d\<rparr>]\<rparr>]\<rparr>"
    using s ck grow gi b1 vac by (simp add: hashmap_set_def Let_def)
  have nth: "table m' ! ?b =
      ?node\<lparr>count := count ?node + 1, items := (items ?node)[p := \<lparr>key = k, data = Some d\<rparr>]\<rparr>"
    using b1' by (simp add: m')
  have "entries (items (table m' ! ?b)) = insert \<lparr>key = k, data = Some d\<rparr> (entries (items ?node))"
    using entries_update_vacant [OF p vac, of "\<lparr>key = k, data = Some d\<rparr>"] by (simp add: nth)
  moreover have "count (table m' ! ?b) = count (table m ! ?b) + 1"
    using grow_bucket [OF grow b] by (simp add: nth)
  moreover have "capacity (table m' ! ?b) = grown (count (table m ! ?b)) (capacity (table m ! ?b))"
    using grow_True_capacity [OF grow b] by (simp add: nth)
  ultimately show ?thesis using ge by simp
qed

lemma get_entry:
  assumes ck: "compute_key m ks = Inr k"
    and q: "q < capacity (table m ! bucket_of m k)"
    and occ: "data (items (table m ! bucket_of m k) ! q) \<noteq> None"
    and eq: "key (items (table m ! bucket_of m k) ! q) = k"
  shows "\<exists>p < capacity (table m ! bucket_of m k).
           hashmap_get m ks = Inr (data (items (table m ! bucket_of m k) ! p)) \<and>
           data (items (table m ! bucket_of m k) ! p) \<noteq> None \<and>
           key (items (table m ! bucket_of m k) ! p) = k"
proof -
  let ?node = "table m ! bucket_of m k"
  let ?c = "capacity ?node"
  let ?idx = "unat (skey k) mod ?c"
  have c: "0 < ?c" using q by simp
  then have idx: "?idx < ?c" by simp
  from probe_surj [OF q idx] obtain j0 where j0: "j0 < ?c" "(?idx + j0) mod ?c = q" by blast
  then have h0: "hit ?node k False ?idx j0" using occ eq by (simp add: hit_def)
  show ?thesis
  proof (cases "get_item_loop ?node k False ?idx 0")
    case None
    from get_item_loop_None [OF None _ j0(1)] h0 show ?thesis by simp
  next
    case (Some p)
    from get_item_loop_Some [OF Some] obtain j where
      j: "j < ?c" "p = (?idx + j) mod ?c" "hit ?node k False ?idx j"
      by auto
    have "hashmap_get m ks = Inr (data (items ?node ! p))"
      using ck c Some by (simp add: hashmap_get_def get_item_def Let_def)
    moreover have "p < ?c" using j(1,2) by simp
    moreover have "data (items ?node ! p) \<noteq> None \<and> key (items ?node ! p) = k"
      using j(2,3) by (auto simp: hit_def KEY_EQU_eq)
    ultimately show ?thesis by blast
  qed
qed

lemma set_all_inv:
  assumes "wf_map m" "set_all m xs = Some m'"
    and "\<forall>x \<in> set xs. \<exists>k. compute_key m (fst (snd x)) = Inr k \<and> bucket_of m k = b"
    and "distinct (map (\<lambda>x. compute_key m (fst (snd x))) xs)"
    and "\<forall>x \<in> set xs. \<forall>it \<in> entries (items (table m ! b)).
           compute_key m (fst (snd x)) \<noteq> Inr (key it)"
  shows "wf_map m' \<and> hash_function m' = hash_function m \<and>
     map_capacity m' = map_capacity m \<and>
     entries (items (table m' ! b)) =
       entries (items (table m ! b)) \<union>
       {\<lparr>key = k, data = Some (snd (snd x))\<rparr> | x k.
          x \<in> set xs \<and> compute_key m (fst (snd x)) = Inr k} \<and>
     count (table m' ! b) = count (table m ! b) + length xs \<and>
     capacity (table m' ! b) =
       grown_by (count (table m ! b)) (capacity (table m ! b)) (length xs)"
  using assms
proof (induction xs arbitrary: m)
  case Nil
  then show ?case by simp
next
  case (Cons x xs)
  obtain a ks d where x: "x = (a, ks, d)" by (cases x) auto
  from Cons.prems(2) obtain r where
    r: "hashmap_set a m ks (Some d) = Inr r" "fst r" and rest: "set_all (snd (snd r)) xs = Some m'"
    by (auto simp: x split: sum.splits if_splits)
  obtain calls m1 where "r = (True, calls, m1)" using r(2) by (cases r) auto
  with r rest have
    s: "hashmap_set a m ks (Some d) = Inr (True, calls, m1)" and rest: "set_all m1 xs = Some m'"
    by simp_all
  from Cons.prems(3) obtain k where k: "compute_key m ks = Inr k" "bucket_of m k = b"
    by (auto simp: x)
  have fresh: "\<forall>it \<in> entries (items (table m ! bucket_of m k)). key it \<noteq> k"
    using Cons.prems(5) k by (auto simp: x)
  note sf = set_fresh_key [OF Cons.prems(1) s k(1) fresh]
  from set_effect [OF Cons.prems(1) s] have wf1: "wf_map m1"
    and h1: "hash_function m1 = hash_function m" and c1: "map_capacity m1 = map_capacity m"
    by blast+
  have ck1: "compute_key m1 ks' = compute_key m ks'" for ks'
    using h1 by (rule compute_key_cong)
  have b1: "bucket_of m1 k' = bucket_of m k'" for k'
    using c1 by (rule bucket_of_cong)
  have p3: "\<forall>y \<in> set xs. \<exists>k. compute_key m1 (fst (snd y)) = Inr k \<and> bucket_of m1 k = b"
    using Cons.prems(3) by (simp add: ck1 b1)
  have p4: "distinct (map (\<lambda>y. compute_key m1 (fst (snd y))) xs)"
    using Cons.prems(4) by (simp add: ck1)
  have p5: "\<forall>y \<in> set xs. \<forall>it \<in> entries (items (table m1 ! b)).
           compute_key m1 (fst (snd y)) \<noteq> Inr (key it)"
  proof (intro ballI)
    fix y it assume y: "y \<in> set xs" and it: "it \<in> entries (items (table m1 ! b))"
    from it sf k(2) consider "it = \<lparr>key = k, data = Some d\<rparr>" | "it \<in> entries (items (table m ! b))"
      by auto
    then show "compute_key m1 (fst (snd y)) \<noteq> Inr (key it)"
    proof cases
      case 1
      have "compute_key m ks \<notin> (\<lambda>x. compute_key m (fst (snd x))) ` set xs"
        using Cons.prems(4) by (simp add: x)
      then have "compute_key m (fst (snd y)) \<noteq> compute_key m ks"
        using y by force
      then show ?thesis using 1 k(1) by (simp add: ck1)
    next
      case 2
      then show ?thesis using Cons.prems(5) y by (simp add: ck1)
    qed
  qed
  note IH = Cons.IH [OF wf1 rest p3 p4 p5]
  have e: "entries (items (table m1 ! b)) \<union>
       {\<lparr>key = k, data = Some (snd (snd y))\<rparr> | y k.
          y \<in> set xs \<and> compute_key m1 (fst (snd y)) = Inr k} =
     entries (items (table m ! b)) \<union>
       {\<lparr>key = k, data = Some (snd (snd y))\<rparr> | y k.
          y \<in> set (x # xs) \<and> compute_key m (fst (snd y)) = Inr k}"
    using sf k by (auto simp: ck1 x)
  have g: "grown_by (count (table m1 ! b)) (capacity (table m1 ! b)) (length xs) =
      grown_by (count (table m ! b)) (capacity (table m ! b)) (length (x # xs))"
    using sf k(2) by simp
  show ?case
    using IH h1 c1 sf k(2) unfolding e g by simp
qed

section \<open>What a successful \<open>hashmap_set\<close> stores\<close>

lemma set_unfold:
  assumes s: "hashmap_set a m ks d = Inr (True, calls, m')" and ck: "compute_key m ks = Inr k"
  obtains m1 p where "grow_node_if_needed a m k = (True, m1)" "get_item m1 k True = Some p"
    "calls = (case data (items (table m1 ! bucket_of m1 k) ! p) of
                None \<Rightarrow> [] | Some r \<Rightarrow> if free_item m1 then [r] else [])"
    "m' = m1\<lparr>table := (table m1)[bucket_of m1 k :=
        (if data (items (table m1 ! bucket_of m1 k) ! p) = None
         then (table m1 ! bucket_of m1 k)\<lparr>count := count (table m1 ! bucket_of m1 k) + 1\<rparr>
         else table m1 ! bucket_of m1 k)
        \<lparr>items := (items (table m1 ! bucket_of m1 k))[p := \<lparr>key = k, data = d\<rparr>]\<rparr>]\<rparr>"
proof -
  from s ck obtain m1 where grow: "grow_node_if_needed a m k = (True, m1)"
    by (cases "grow_node_if_needed a m k") (auto simp: hashmap_set_def split: bool.splits)
  from s ck grow obtain p where gi: "get_item m1 k True = Some p"
    by (auto simp: hashmap_set_def split: option.splits)
  from s ck grow gi that [OF grow gi] show ?thesis
    by (auto simp: hashmap_set_def Let_def)
qed

lemma get_item_placed:
  assumes j: "j < capacity node"
    and at: "probe_slot node k j = \<lparr>key = k, data = Some d\<rparr>"
    and before: "\<forall>j' < j. data (probe_slot node k j') \<noteq> None \<and>
                   \<not> KEY_EQU (key (probe_slot node k j')) k"
  shows "get_item_loop node k e (unat (skey k) mod capacity node) 0 =
         Some ((unat (skey k) mod capacity node + j) mod capacity node)"
  using j at before
  by (intro get_item_loop_first) (auto simp: hit_def probe_slot_def)

lemma set_places:
  assumes wf: "wf_map m" and s: "hashmap_set a m ks (Some d) = Inr (True, calls, m')"
    and ck: "compute_key m ks = Inr k"
  shows "\<exists>j < capacity (table m' ! bucket_of m k).
           probe_slot (table m' ! bucket_of m k) k j = \<lparr>key = k, data = Some d\<rparr> \<and>
           (\<forall>j' < j. data (probe_slot (table m' ! bucket_of m k) k j') \<noteq> None \<and>
                     \<not> KEY_EQU (key (probe_slot (table m' ! bucket_of m k) k j')) k)"
proof -
  from set_unfold [OF s ck] obtain m1 p where grow: "grow_node_if_needed a m k = (True, m1)"
    and gi: "get_item m1 k True = Some p"
    and m': "m' = m1\<lparr>table := (table m1)[bucket_of m1 k :=
        (if data (items (table m1 ! bucket_of m1 k) ! p) = None
         then (table m1 ! bucket_of m1 k)\<lparr>count := count (table m1 ! bucket_of m1 k) + 1\<rparr>
         else table m1 ! bucket_of m1 k)
        \<lparr>items := (items (table m1 ! bucket_of m1 k))[p := \<lparr>key = k, data = Some d\<rparr>]\<rparr>]\<rparr>"
    by blast
  note f = grow_fields [OF grow]
  have wf1: "wf_map m1" using grow_wf [OF wf grow] .
  have b1: "bucket_of m1 k = bucket_of m k" using f by (simp add: bucket_of_def)
  let ?b = "bucket_of m k"
  let ?node = "table m1 ! ?b"
  let ?c = "capacity ?node"
  let ?idx = "unat (skey k) mod ?c"
  have b: "?b < length (table m1)" using wf1 wf_map_bucket_of [of m1 k] b1 by simp
  have cap: "?c \<noteq> 0" and loop: "get_item_loop ?node k True ?idx 0 = Some p"
    using gi b1 by (auto simp: get_item_def Let_def split: if_splits)
  have len: "length (items ?node) = ?c"
    using wf1 b by (simp add: wf_map_def list_all_length)
  have idx: "?idx < ?c" using cap by simp
  from get_item_loop_Some [OF loop] obtain j where
    j: "j < ?c" "p = (?idx + j) mod ?c" "\<forall>j'. j' < j \<longrightarrow> \<not> hit ?node k True ?idx j'"
    by auto
  have p: "p < ?c" using j(1,2) by simp
  let ?node' = "table m' ! ?b"
  have its': "items ?node' = (items ?node)[p := \<lparr>key = k, data = Some d\<rparr>]"
    and cap': "capacity ?node' = ?c"
    using b by (simp_all add: m' b1)
  have at: "probe_slot ?node' k j = \<lparr>key = k, data = Some d\<rparr>"
    using p len j(2) by (simp add: probe_slot_def its' cap')
  have before: "data (probe_slot ?node' k j') \<noteq> None \<and>
      \<not> KEY_EQU (key (probe_slot ?node' k j')) k" if "j' < j" for j'
  proof -
    have "j' < ?c" using that j(1) by simp
    then have ne: "(?idx + j') mod ?c \<noteq> p"
      using probe_inj [OF idx \<open>j' < ?c\<close> j(1)] that j(2) by auto
    have "\<not> hit ?node k True ?idx j'" using j(3) that by simp
    then show ?thesis using ne by (auto simp: hit_def probe_slot_def its' cap')
  qed
  show ?thesis using j(1) at before cap' by auto
qed

lemma set_fields:
  assumes wf: "wf_map m" and s: "hashmap_set a m ks d = Inr (r, calls, m')"
  shows "wf_map m' \<and> hash_function m' = hash_function m \<and> map_capacity m' = map_capacity m \<and>
         free_item m' = free_item m"
  using set_effect [OF wf s] by metis

lemma set_get:
  assumes wf: "wf_map m" and s: "hashmap_set a m ks (Some d) = Inr (True, calls, m')"
  shows "hashmap_get m' ks = Inr (Some d)"
proof -
  from s obtain k where ck: "compute_key m ks = Inr k"
    by (auto simp: hashmap_set_def split: sum.splits)
  note f = set_fields [OF wf s]
  have ck': "compute_key m' ks = Inr k" using ck f by (simp add: compute_key_cong [of m' m])
  have b': "bucket_of m' k = bucket_of m k" using f by (simp add: bucket_of_def)
  from set_places [OF wf s ck] obtain j where j: "j < capacity (table m' ! bucket_of m k)"
    "probe_slot (table m' ! bucket_of m k) k j = \<lparr>key = k, data = Some d\<rparr>"
    "\<forall>j' < j. data (probe_slot (table m' ! bucket_of m k) k j') \<noteq> None \<and>
                     \<not> KEY_EQU (key (probe_slot (table m' ! bucket_of m k) k j')) k"
    by blast
  from get_item_placed [OF j, of False]
  have "get_item m' k False =
    Some ((unat (skey k) mod capacity (table m' ! bucket_of m k) + j)
            mod capacity (table m' ! bucket_of m k))"
    using j(1) by (simp add: get_item_def b' Let_def)
  then show ?thesis using j(2) by (simp add: hashmap_get_def ck' b' probe_slot_def)
qed

lemma contiguous_first_hit:
  assumes c: "contiguous its" and len: "length its = capacity node" and its: "items node = its"
    and q: "q < length its" "data (its ! q) \<noteq> None" "key (its ! q) = k"
    and loop: "get_item_loop node k True (unat (skey k) mod capacity node) 0 = Some p"
  shows "p < capacity node \<and> data (its ! p) \<noteq> None \<and> key (its ! p) = k"
proof -
  let ?c = "capacity node"
  let ?idx = "unat (skey k) mod ?c"
  from c q obtain jq where jq: "jq < ?c" "q = (?idx + jq) mod ?c"
    "\<forall>j'<jq. data (its ! ((?idx + j') mod ?c)) \<noteq> None"
    unfolding contiguous_def home_def len by blast
  have hq: "hit node k True ?idx jq"
    using jq(2) q(2,3) by (auto simp: hit_def its KEY_EQU_eq)
  from get_item_loop_Some [OF loop] obtain j0 where j0: "j0 < ?c" "p = (?idx + j0) mod ?c"
    "hit node k True ?idx j0" "\<forall>j'. j' < j0 \<longrightarrow> \<not> hit node k True ?idx j'"
    by auto
  have le: "j0 \<le> jq" using j0(4) hq by (meson not_le)
  have occ: "data (its ! p) \<noteq> None"
  proof (cases "j0 = jq")
    case True
    then show ?thesis using j0(2) jq(2) q(2) by simp
  next
    case False
    then have "j0 < jq" using le by simp
    then show ?thesis using jq(3) j0(2) by simp
  qed
  then have "key (its ! p) = k" using j0(2,3) by (auto simp: hit_def its KEY_EQU_eq)
  moreover have "p < ?c" using j0(1,2) by simp
  ultimately show ?thesis using occ by simp
qed

text \<open>
  Two successful calls of \<open>hashmap_set\<close> for one key, one after the other. The second finds
  the slot the first one wrote when it does not grow the bucket; when it does, the
  re-insertion may put another slot of the same key first.
\<close>

lemma set_again_destroys_first:
  assumes wf: "wf_map m" and fi: "free_item m"
    and ck: "compute_key m ks = Inr k"
    and s1: "hashmap_set a1 m ks (Some d1) = Inr (True, calls1, m1)"
    and s2: "hashmap_set a2 m1 ks (Some d2) = Inr (True, calls2, m2)"
    and nodup: "count (table m1 ! bucket_of m k) + 1 < capacity (table m1 ! bucket_of m k) \<or>
                (\<forall>it \<in> entries (items (table m1 ! bucket_of m k)).
                   key it = k \<longrightarrow> data it = Some d1)"
  shows "calls2 = [d1] \<and> hashmap_get m2 ks = Inr (Some d2)"
proof -
  let ?b = "bucket_of m k"
  let ?n1 = "table m1 ! ?b"
  note f1 = set_fields [OF wf s1]
  then have wf1: "wf_map m1" by simp
  have ck1: "compute_key m1 ks = Inr k" using ck f1 by (simp add: compute_key_cong [of m1 m])
  have b1: "bucket_of m1 k = ?b" using f1 by (simp add: bucket_of_def)
  have bl: "?b < length (table m1)" using wf_map_bucket_of [OF wf1, of k] b1 by simp
  have len1: "length (items ?n1) = capacity ?n1"
    using wf1 bl by (simp add: wf_map_def list_all_length)
  from set_places [OF wf s1 ck] obtain j1 where j1: "j1 < capacity ?n1"
    "probe_slot ?n1 k j1 = \<lparr>key = k, data = Some d1\<rparr>"
    "\<forall>j' < j1. data (probe_slot ?n1 k j') \<noteq> None \<and> \<not> KEY_EQU (key (probe_slot ?n1 k j')) k"
    by blast
  from set_unfold [OF s2 ck1] obtain mg p where grow: "grow_node_if_needed a2 m1 k = (True, mg)"
    and gi: "get_item mg k True = Some p"
    and calls: "calls2 = (case data (items (table mg ! bucket_of mg k) ! p) of
                None \<Rightarrow> [] | Some r \<Rightarrow> if free_item mg then [r] else [])"
    by blast
  note fg = grow_fields [OF grow]
  have bg: "bucket_of mg k = ?b" using fg b1 by (simp add: bucket_of_def)
  have fig: "free_item mg" using fg f1 fi by simp
  let ?ng = "table mg ! ?b"
  have capg: "capacity ?ng \<noteq> 0"
    and loop: "get_item_loop ?ng k True (unat (skey k) mod capacity ?ng) 0 = Some p"
    using gi bg by (auto simp: get_item_def Let_def split: if_splits)
  have old: "data (items ?ng ! p) = Some d1"
  proof (cases "count ?n1 + 1 < capacity ?n1")
    case True
    then have "mg = m1" using grow b1 by (simp add: grow_node_if_needed_def Let_def)
    with loop get_item_placed [OF j1, of True] j1(2) show ?thesis
      by (simp add: probe_slot_def)
  next
    case False
    with nodup have H: "\<forall>it \<in> entries (items ?n1). key it = k \<longrightarrow> data it = Some d1" by simp
    have wfg: "wf_map mg" using grow_wf [OF wf1 grow] .
    have leng: "length (items ?ng) = capacity ?ng"
      using wfg bl fg by (simp add: wf_map_def list_all_length)
    from grow_entries [OF wf1 grow] have en: "entries (items ?ng) = entries (items ?n1)"
      and co: "capacity ?ng \<noteq> capacity ?n1 \<longrightarrow> contiguous (items ?ng)"
      by (simp_all add: b1)
    have "capacity ?ng = grown (count ?n1) (capacity ?n1)"
      using grow_True_capacity [OF grow] bl by (simp add: b1)
    then have "capacity ?ng \<noteq> capacity ?n1" using False j1(1) by (simp add: grown_def)
    with co have cont: "contiguous (items ?ng)" by simp
    have "probe_slot ?n1 k j1 \<in> entries (items ?n1)"
      unfolding in_entries_iff probe_slot_def using j1(1,2) len1
      by (intro exI [of _ "(unat (skey k) mod capacity ?n1 + j1) mod capacity ?n1"])
         (simp add: probe_slot_def)
    then have "\<lparr>key = k, data = Some d1\<rparr> \<in> entries (items ?ng)" using j1(2) en by simp
    then obtain q where q: "q < length (items ?ng)" "items ?ng ! q = \<lparr>key = k, data = Some d1\<rparr>"
      by (auto simp: in_entries_iff)
    from contiguous_first_hit [OF cont leng refl q(1) _ _ loop] q(2)
    have p: "p < capacity ?ng" "data (items ?ng ! p) \<noteq> None" "key (items ?ng ! p) = k"
      by simp_all
    then have "items ?ng ! p \<in> entries (items ?ng)"
      unfolding in_entries_iff using leng by auto
    then show ?thesis using H en p(3) by simp
  qed
  have "calls2 = [d1]" using calls old fig by (simp add: bg)
  moreover have "hashmap_get m2 ks = Inr (Some d2)" using set_get [OF wf1 s2] .
  ultimately show ?thesis by simp
qed

section \<open>What \<open>hashmap_delete\<close> does\<close>

lemma delete_loop_step:
  "delete_loop node ukey idx i =
     (if i < capacity node then
        (if data (items node ! ((idx + i) mod capacity node)) = None then None
         else if KEY_EQU (key (items node ! ((idx + i) mod capacity node))) ukey
         then Some ((idx + i) mod capacity node)
         else delete_loop node ukey idx (Suc (Suc i)))
      else None)"
  by (subst delete_loop.simps) simp

lemma delete_loop_Some:
  "delete_loop node ukey idx i = Some p \<Longrightarrow>
   p < capacity node \<and> data (items node ! p) \<noteq> None \<and> KEY_EQU (key (items node ! p)) ukey"
proof (induction "capacity node - i" arbitrary: i rule: less_induct)
  case less
  show ?case
  proof (cases "i < capacity node")
    case False
    with less.prems show ?thesis by (subst (asm) delete_loop_step) simp
  next
    case True
    show ?thesis
    proof (cases "data (items node ! ((idx + i) mod capacity node)) \<noteq> None \<and>
        \<not> KEY_EQU (key (items node ! ((idx + i) mod capacity node))) ukey")
      case True
      with \<open>i < capacity node\<close> less.prems
      have "delete_loop node ukey idx (Suc (Suc i)) = Some p"
        by (subst (asm) delete_loop_step) auto
      moreover have "capacity node - Suc (Suc i) < capacity node - i"
        using \<open>i < capacity node\<close> by simp
      ultimately show ?thesis using less.hyps by blast
    next
      case False
      with \<open>i < capacity node\<close> less.prems show ?thesis
        by (subst (asm) delete_loop_step) (auto split: if_splits)
    qed
  qed
qed

lemma delete_true_effect:
  assumes wf: "wf_map m" and ck: "compute_key m ks = Inr k"
    and d: "hashmap_delete m ks out = Inr (True, out', m')"
  shows "\<exists>p < capacity (table m ! bucket_of m k).
           data (items (table m ! bucket_of m k) ! p) \<noteq> None \<and>
           KEY_EQU (key (items (table m ! bucket_of m k) ! p)) k \<and>
           items (table m' ! bucket_of m k) = (items (table m ! bucket_of m k))[p := zero_item] \<and>
           out' = map_option (\<lambda>v. data (items (table m ! bucket_of m k) ! p)) out \<and>
           count (table m' ! bucket_of m k) = count (table m ! bucket_of m k)"
proof -
  let ?b = "bucket_of m k"
  let ?node = "table m ! ?b"
  have b: "?b < length (table m)" using wf by (rule wf_map_bucket_of)
  from d ck obtain p where
    loop: "delete_loop ?node k (unat (skey k) mod capacity ?node) 0 = Some p"
    and out': "out' = (case out of None \<Rightarrow> None | Some v \<Rightarrow> Some (data (items ?node ! p)))"
    and m': "m' = m\<lparr>table := (table m)[?b := ?node\<lparr>items := (items ?node)[p := zero_item]\<rparr>]\<rparr>"
    by (auto simp: hashmap_delete_def Let_def split: option.splits if_splits)
  from delete_loop_Some [OF loop] have "p < capacity ?node" "data (items ?node ! p) \<noteq> None"
    "KEY_EQU (key (items ?node ! p)) k"
    by simp_all
  moreover have "out' = map_option (\<lambda>v. data (items ?node ! p)) out"
    using out' by (cases out) simp_all
  ultimately show ?thesis using b by (auto simp: m')
qed

lemma delete_unallocated:
  assumes "compute_key m ks = Inr k" and "capacity (table m ! bucket_of m k) = 0"
  shows "hashmap_delete m ks out = Inl DivisionByZero"
  using assms by (simp add: hashmap_delete_def)

lemma get_unallocated:
  assumes "compute_key m ks = Inr k" and "capacity (table m ! bucket_of m k) = 0"
  shows "hashmap_get m ks = Inr None"
  using assms by (simp add: hashmap_get_def get_item_def)


section \<open>Runs of operations\<close>

lemma run_append:
  "run m (xs @ ys) = (case run m xs of Inl e \<Rightarrow> Inl e | Inr m' \<Rightarrow> run m' ys)"
  by (induction xs arbitrary: m) (auto split: sum.splits)

lemma after_run: "run test_map xs = Inr st \<Longrightarrow> after xs = st"
  by (simp add: after_def)

lemma run_snoc_set:
  "run m xs = Inr st \<Longrightarrow> hashmap_set a st ks d = Inr r \<Longrightarrow>
   run m (xs @ [OpSet a ks d]) = Inr (snd (snd r))"
  by (cases r) (simp add: run_append)

section \<open>Claims\<close>

text \<open>
  C1. For every non-empty key \<open>ks\<close> and data reference \<open>Some d\<close>: when \<open>hashmap_set\<close> returns
  true, \<open>hashmap_get\<close> on the container it leaves returns that reference. (An empty key
  fails the assertion of \<open>compute_key\<close>, so a call that returns has a non-empty key.)
\<close>

theorem set_then_get:
  assumes wf: "wf_map m"
    and set: "hashmap_set a m ks (Some d) = Inr (True, calls, m')"
  shows "hashmap_get m' ks = Inr (Some d)"
  using wf set by (rule set_get)

lemma hit_False_matches:
  "hit node k False (unat (skey k) mod capacity node) j = matches node k j"
  by (simp add: hit_def matches_def probe_slot_def)

text \<open>
  C9. \<open>hashmap_get\<close> scans the whole bucket from \<open>skey mod capacity\<close>, wrapping: when any
  slot \<open>q\<close> of the key's bucket holds data under the key, it returns the data of the first
  matching slot in probe order, whatever the slots before it hold (empty ones included).
\<close>

theorem get_scans_whole_bucket:
  assumes ck: "compute_key m ks = Inr ukey"
    and q: "q < capacity (table m ! bucket_of m ukey)"
    and occ: "data (items (table m ! bucket_of m ukey) ! q) \<noteq> None"
    and eq: "KEY_EQU (key (items (table m ! bucket_of m ukey) ! q)) ukey"
  shows "\<exists>j < capacity (table m ! bucket_of m ukey).
           matches (table m ! bucket_of m ukey) ukey j \<and>
           (\<forall>j' < j. \<not> matches (table m ! bucket_of m ukey) ukey j') \<and>
           hashmap_get m ks = Inr (data (probe_slot (table m ! bucket_of m ukey) ukey j))"
proof -
  let ?node = "table m ! bucket_of m ukey"
  let ?c = "capacity ?node"
  let ?idx = "unat (skey ukey) mod ?c"
  have c: "0 < ?c" using q by simp
  then have idx: "?idx < ?c" by simp
  from probe_surj [OF q idx] obtain j0 where j0: "j0 < ?c" "(?idx + j0) mod ?c = q" by blast
  then have "matches ?node ukey j0" using occ eq by (simp add: matches_def probe_slot_def)
  then obtain j where j: "matches ?node ukey j" "\<forall>j' < j. \<not> matches ?node ukey j'"
    using exists_least_iff [of "matches ?node ukey"] by blast
  have jle: "j \<le> j0" using j(2) \<open>matches ?node ukey j0\<close> by (meson not_le)
  then have jc: "j < ?c" using j0(1) by simp
  have "get_item_loop ?node ukey False ?idx 0 = Some ((?idx + j) mod ?c)"
    using jc j by (intro get_item_loop_first) (simp_all add: hit_False_matches)
  then have "hashmap_get m ks = Inr (data (probe_slot ?node ukey j))"
    using ck c by (simp add: hashmap_get_def get_item_def probe_slot_def Let_def)
  with jc j show ?thesis by blast
qed

text \<open>
  C10. When \<open>hashmap_delete\<close> returns false, the cell behind the out-parameter and the
  container are as they were.
\<close>

theorem delete_false_frame:
  "hashmap_delete m ks out = Inr (False, out', m') \<Longrightarrow> out' = out \<and> m' = m"
  by (auto simp: hashmap_delete_def Let_def split: sum.splits option.splits if_splits)



text \<open>
  C5. In every container reached from \<open>hashmap_create\<close> by operations that return, every
  bucket with a capacity above zero has its count strictly below it, and its capacity is
  zero or the base size doubled some number of times: all capacities are zero at
  creation, an operation other than a \<open>hashmap_set\<close> on the bucket leaves the capacity as
  it is, and a \<open>hashmap_set\<close> leaves it, takes it from zero to the base size, or doubles it.
\<close>

theorem reachable_buckets:
  assumes c: "hashmap_create ok cap h f = Inr (Some m0)" and r: "run m0 ops = Inr m"
  shows "list_all (\<lambda>node. capacity node = 0) (table m0) \<and>
         list_all (\<lambda>node. (0 < capacity node \<longrightarrow> count node < capacity node) \<and>
                           (capacity node = 0 \<or>
                            (\<exists>n. capacity node = HASH_MAP_BUCKET_SIZE * 2 ^ n))) (table m) \<and>
         (\<forall>x m' i. exec m x = Inr m' \<and> i < map_capacity m \<longrightarrow>
            (if targets m x i
             then capacity_step (capacity (table m ! i)) (capacity (table m' ! i))
             else capacity (table m' ! i) = capacity (table m ! i)))"
proof -
  note ci = create_inv [OF c]
  from run_inv [OF _ _ r] ci have wf: "wf_map m" and inv: "list_all bucket_inv (table m)"
    by simp_all
  have "list_all (\<lambda>node. (0 < capacity node \<longrightarrow> count node < capacity node) \<and>
                           (capacity node = 0 \<or>
                            (\<exists>n. capacity node = HASH_MAP_BUCKET_SIZE * 2 ^ n))) (table m)"
    using inv by (auto simp: list_all_length bucket_inv_def count_ok_def doubled_def)
  moreover have "\<forall>x m' i. exec m x = Inr m' \<and> i < map_capacity m \<longrightarrow>
            (if targets m x i
             then capacity_step (capacity (table m ! i)) (capacity (table m' ! i))
             else capacity (table m' ! i) = capacity (table m ! i))"
    using exec_step [OF wf inv] by blast
  ultimately show ?thesis using ci by simp
qed

text \<open>
  C6. When the bucket has to grow and an allocation fails (the scratch buffer has to be
  enlarged and cannot be, or the slot array cannot be allocated), \<open>hashmap_set\<close> returns
  false, calls no destroy callback, and leaves the whole table as it was: capacity, count
  and every slot of the bucket; every key is looked up as before.
\<close>

theorem set_allocation_failure:
  assumes wf: "wf_map m"
    and ck: "compute_key m ks = Inr ukey"
    and needed: "\<not> count (table m ! bucket_of m ukey) + 1 < capacity (table m ! bucket_of m ukey)"
    and fails: "tmp_capacity m < capacity (table m ! bucket_of m ukey) \<and> \<not> scratch_ok a \<or>
                \<not> items_ok a"
  shows "\<exists>m1. hashmap_set a m ks d = Inr (False, [], m1) \<and> table m1 = table m \<and>
              (\<forall>ks'. hashmap_get m1 ks' = hashmap_get m ks')"
proof -
  obtain r m1 where g: "grow_node_if_needed a m ukey = (r, m1)"
    by (cases "grow_node_if_needed a m ukey")
  have r: "r = False"
    using g needed fails by (auto simp: grow_node_if_needed_def Let_def split: if_splits)
  have t: "table m1 = table m" using grow_False_table [OF wf] g r by simp
  note f = grow_fields [OF g]
  have gi: "get_item m1 k' e = get_item m k' e" for k' e
    using t f by (simp add: get_item_def bucket_of_def)
  have "hashmap_get m1 ks' = hashmap_get m ks'" for ks'
    using t f
    by (simp add: hashmap_get_def gi compute_key_cong [of m1 m] bucket_of_cong [of m1 m]
          split: sum.splits option.splits)
  moreover have "hashmap_set a m ks d = Inr (False, [], m1)"
    using ck g r by (simp add: hashmap_set_def)
  ultimately show ?thesis using t by blast
qed

text \<open>
  C8. From a fresh container, nine calls of \<open>hashmap_set\<close> that all return true, with
  pairwise distinct two-part keys that select the same bucket \<open>b\<close>, leave that bucket with
  capacity 16, and \<open>hashmap_get\<close> returns for each key the reference set for it.
\<close>

theorem nine_keys_one_bucket:
  assumes c: "hashmap_create ok cap h f = Inr (Some m0)"
    and n: "length xs = 9"
    and d: "distinct (map (\<lambda>(a, ks, d). compute_key m0 ks) xs)"
    and b: "\<forall>(a, ks, d) \<in> set xs. \<exists>k. compute_key m0 ks = Inr k \<and> bucket_of m0 k = b"
    and s: "set_all m0 xs = Some m"
  shows "capacity (table m ! b) = 16 \<and>
         (\<forall>(a, ks, d) \<in> set xs. hashmap_get m ks = Inr (Some d))"
proof -
  have wf0: "wf_map m0" using create_inv [OF c] by simp
  have f: "(\<lambda>(a, ks, d). g ks) = (\<lambda>x. g (fst (snd x)))" for g :: "string \<Rightarrow> 'a"
    by (auto simp: fun_eq_iff)
  have d': "distinct (map (\<lambda>x. compute_key m0 (fst (snd x))) xs)"
    using d by (simp add: f)
  have b': "\<forall>x \<in> set xs. \<exists>k. compute_key m0 (fst (snd x)) = Inr k \<and> bucket_of m0 k = b"
    using b by auto
  obtain x0 where x0: "x0 \<in> set xs" using n by (cases xs) auto
  with b' obtain k0 where "bucket_of m0 k0 = b" by blast
  then have bl: "b < length (table m0)" using wf_map_bucket_of [OF wf0] by auto
  have t0: "table m0 ! b = \<lparr>items = [], count = 0, capacity = 0\<rparr>"
    using c bl by (auto simp: hashmap_create_def split: if_splits)
  have fresh: "\<forall>x \<in> set xs. \<forall>it \<in> entries (items (table m0 ! b)).
           compute_key m0 (fst (snd x)) \<noteq> Inr (key it)"
    by (simp add: t0)
  note inv = set_all_inv [OF wf0 s b' d' fresh]
  from inv have wf: "wf_map m" and hf: "hash_function m = hash_function m0"
    and mc: "map_capacity m = map_capacity m0"
    and en: "entries (items (table m ! b)) =
       {\<lparr>key = k, data = Some (snd (snd x))\<rparr> | x k.
          x \<in> set xs \<and> compute_key m0 (fst (snd x)) = Inr k}"
    by (simp_all add: t0)
  have cap: "capacity (table m ! b) = 16"
    using inv by (simp add: t0 n grown_def HASH_MAP_BUCKET_SIZE_def eval_nat_numeral)
  have bm: "b < length (table m)" using bl wf wf0 mc by (simp add: wf_map_def)
  have len: "length (items (table m ! b)) = capacity (table m ! b)"
    using wf bm by (simp add: wf_map_def list_all_length)
  have inj: "inj_on (\<lambda>x. compute_key m0 (fst (snd x))) (set xs)"
    using d' by (simp add: distinct_map)
  have "hashmap_get m ks = Inr (Some dd)" if x: "(a, ks, dd) \<in> set xs" for a ks dd
  proof -
    from b' x obtain k where k: "compute_key m0 ks = Inr k" "bucket_of m0 k = b" by force
    have ck: "compute_key m ks = Inr k" using k(1) hf by (simp add: compute_key_cong [of m m0])
    have bk: "bucket_of m k = b" using k(2) mc by (simp add: bucket_of_cong [of m m0])
    have "\<lparr>key = k, data = Some dd\<rparr> \<in> entries (items (table m ! b))"
      unfolding en using x k(1) by force
    then obtain q where q: "q < length (items (table m ! b))"
      "items (table m ! b) ! q = \<lparr>key = k, data = Some dd\<rparr>"
      by (auto simp: in_entries_iff)
    from get_entry [OF ck, of q] q len bk obtain p where p: "p < capacity (table m ! b)"
      "hashmap_get m ks = Inr (data (items (table m ! b) ! p))"
      "data (items (table m ! b) ! p) \<noteq> None" "key (items (table m ! b) ! p) = k"
      by auto
    have "items (table m ! b) ! p \<in> entries (items (table m ! b))"
      using p(1,3) len unfolding in_entries_iff by auto
    then obtain y k' where y: "y \<in> set xs" "compute_key m0 (fst (snd y)) = Inr k'"
      "items (table m ! b) ! p = \<lparr>key = k', data = Some (snd (snd y))\<rparr>"
      unfolding en by blast
    have "k' = k" using y(3) p(4) by simp
    then have "compute_key m0 (fst (snd y)) = compute_key m0 (fst (snd (a, ks, dd)))"
      using y(2) k(1) by simp
    with inj_onD [OF inj _ y(1) x] have "y = (a, ks, dd)" by blast
    then show ?thesis using p(2) y(3) by simp
  qed
  then show ?thesis using cap by auto
qed

section \<open>Runs on the tests' container\<close>

theorem set_then_get_witness:
  "wf_map test_map \<and>
   map_sum id fst (hashmap_set all_ok test_map ''a_key_0'' (Some 10)) = Inr True \<and>
   hashmap_get (after [OpSet all_ok ''a_key_0'' (Some 10)]) ''a_key_0'' = Inr (Some 10)"
proof -
  have wf: "wf_map test_map" by (simp add: wf_map_def test_map_def)
  have r: "map_sum id fst (hashmap_set all_ok test_map ''a_key_0'' (Some 10)) = Inr True"
    by code_simp
  then obtain calls m' where
    st: "hashmap_set all_ok test_map ''a_key_0'' (Some 10) = Inr (True, calls, m')"
    by (cases "hashmap_set all_ok test_map ''a_key_0'' (Some 10)") auto
  have "after [OpSet all_ok ''a_key_0'' (Some 10)] = m'"
    by (simp add: after_def st)
  then show ?thesis using wf r set_then_get [OF wf st] by simp
qed

theorem get_scans_whole_bucket_witness:
  "compute_key (after [OpSet all_ok ''a_key_0'' (Some 10), OpSet all_ok ''a_key_8'' (Some 20),
                       OpDelete ''a_key_0'' None]) ''a_key_8'' = Inr \<lparr>pkey = 97, skey = 575\<rparr> \<and>
   data (probe_slot
     (table (after [OpSet all_ok ''a_key_0'' (Some 10), OpSet all_ok ''a_key_8'' (Some 20),
                    OpDelete ''a_key_0'' None]) ! 0) \<lparr>pkey = 97, skey = 575\<rparr> 0) = None \<and>
   matches
     (table (after [OpSet all_ok ''a_key_0'' (Some 10), OpSet all_ok ''a_key_8'' (Some 20),
                    OpDelete ''a_key_0'' None]) ! 0) \<lparr>pkey = 97, skey = 575\<rparr> 1 \<and>
   hashmap_get (after [OpSet all_ok ''a_key_0'' (Some 10), OpSet all_ok ''a_key_8'' (Some 20),
                       OpDelete ''a_key_0'' None]) ''a_key_8'' = Inr (Some 20)"
proof -
  define st where "st = after [OpSet all_ok ''a_key_0'' (Some 10),
    OpSet all_ok ''a_key_8'' (Some 20), OpDelete ''a_key_0'' None]"
  define K where "K = \<lparr>pkey = 97, skey = 575\<rparr>"
  have "let s = after [OpSet all_ok ''a_key_0'' (Some 10),
        OpSet all_ok ''a_key_8'' (Some 20), OpDelete ''a_key_0'' None];
          k = \<lparr>pkey = 97, skey = 575\<rparr> in
      compute_key s ''a_key_8'' = Inr k \<and> bucket_of s k = 0 \<and>
      0 < capacity (table s ! bucket_of s k) \<and>
      data (items (table s ! bucket_of s k) ! 0) \<noteq> None \<and>
      KEY_EQU (key (items (table s ! bucket_of s k) ! 0)) k \<and>
      data (probe_slot (table s ! 0) k 0) = None \<and>
      matches (table s ! 0) k 1 \<and>
      data (probe_slot (table s ! 0) k 1) = Some 20"
    by code_simp
  then have facts: "compute_key st ''a_key_8'' = Inr K \<and> bucket_of st K = 0 \<and>
      0 < capacity (table st ! bucket_of st K) \<and>
      data (items (table st ! bucket_of st K) ! 0) \<noteq> None \<and>
      KEY_EQU (key (items (table st ! bucket_of st K) ! 0)) K \<and>
      data (probe_slot (table st ! 0) K 0) = None \<and>
      matches (table st ! 0) K 1 \<and>
      data (probe_slot (table st ! 0) K 1) = Some 20"
    unfolding Let_def st_def K_def .
  then have ck: "compute_key st ''a_key_8'' = Inr K" and b: "bucket_of st K = 0"
    and q: "0 < capacity (table st ! bucket_of st K)"
    and occ: "data (items (table st ! bucket_of st K) ! 0) \<noteq> None"
    and eq: "KEY_EQU (key (items (table st ! bucket_of st K) ! 0)) K"
    and e0: "data (probe_slot (table st ! 0) K 0) = None"
    and m1: "matches (table st ! 0) K 1"
    and d1: "data (probe_slot (table st ! 0) K 1) = Some 20"
    by blast+
  from get_scans_whole_bucket [OF ck q occ eq] obtain j where
    j: "matches (table st ! 0) K j" "\<forall>j'<j. \<not> matches (table st ! 0) K j'"
       "hashmap_get st ''a_key_8'' = Inr (data (probe_slot (table st ! 0) K j))"
    unfolding b by blast
  have "j \<noteq> 0"
  proof
    assume "j = 0"
    with j(1) e0 show False by (simp add: matches_def)
  qed
  moreover have "\<not> 1 < j" using j(2) m1 by blast
  ultimately have "j = 1" by simp
  then have "hashmap_get st ''a_key_8'' = Inr (Some 20)" using j(3) d1 by simp
  then show ?thesis using ck e0 m1 unfolding st_def K_def by simp
qed

theorem delete_false_frame_witness:
  "hashmap_delete (after [OpSet all_ok ''a_key_0'' (Some 10)]) ''a_key_1'' (Some None) =
     Inr (False, Some None, after [OpSet all_ok ''a_key_0'' (Some 10)])"
proof -
  have "map_sum id fst (hashmap_delete (after [OpSet all_ok ''a_key_0'' (Some 10)])
          ''a_key_1'' (Some None)) = Inr False"
    by code_simp
  then obtain out' m' where
    d: "hashmap_delete (after [OpSet all_ok ''a_key_0'' (Some 10)]) ''a_key_1'' (Some None) =
          Inr (False, out', m')"
    by (cases "hashmap_delete (after [OpSet all_ok ''a_key_0'' (Some 10)]) ''a_key_1'' (Some None)")
       auto
  from delete_false_frame [OF d] d show ?thesis by simp
qed

theorem reachable_buckets_witness:
  "hashmap_create True 1 collision_hash True = Inr (Some test_map) \<and>
   run test_map seven_sets = Inr (after seven_sets) \<and>
   capacity (table (after seven_sets) ! 0) = 8 \<and>
   count (table (after seven_sets) ! 0) < capacity (table (after seven_sets) ! 0) \<and>
   targets (after seven_sets) (OpSet all_ok ''a_key_7'' (Some 80)) 0 \<and>
   map_sum id (\<lambda>s. capacity (table s ! 0))
     (exec (after seven_sets) (OpSet all_ok ''a_key_7'' (Some 80))) = Inr 16 \<and>
   capacity_step 8 16"
proof -
  let ?x = "OpSet all_ok ''a_key_7'' (Some 80)"
  have c: "hashmap_create True 1 collision_hash True = Inr (Some test_map)"
    by (simp add: hashmap_create_def create_size_def sizeof_HashMap_def sizeof_HashMapBucket_def
          SIZE_LIMIT_def test_map_def)
  have "case run test_map seven_sets of
          Inl e \<Rightarrow> False
        | Inr s \<Rightarrow> capacity (table s ! 0) = 8 \<and> 0 < map_capacity s \<and> targets s ?x 0 \<and>
            map_sum id (\<lambda>s'. capacity (table s' ! 0)) (exec s ?x) = Inr 16 \<and>
            0 < length (table s)"
    by code_simp
  then obtain s where r: "run test_map seven_sets = Inr s"
    and s: "capacity (table s ! 0) = 8" "0 < map_capacity s" "targets s ?x 0"
      "map_sum id (\<lambda>s'. capacity (table s' ! 0)) (exec s ?x) = Inr 16"
      "0 < length (table s)"
    by (cases "run test_map seven_sets") auto
  have a: "after seven_sets = s" by (simp add: after_def r)
  from s(4) obtain s' where e: "exec s ?x = Inr s'" and s': "capacity (table s' ! 0) = 16"
    by (cases "exec s ?x") auto
  note rb = reachable_buckets [OF c r]
  from rb have "\<forall>n<length (table s). 0 < capacity (table s ! n) \<longrightarrow>
      count (table s ! n) < capacity (table s ! n)"
    by (simp add: list_all_length)
  with s(1,5) have "count (table s ! 0) < capacity (table s ! 0)"
    by auto
  moreover from rb have "exec s ?x = Inr s' \<and> 0 < map_capacity s \<longrightarrow>
      (if targets s ?x 0
       then capacity_step (capacity (table s ! 0)) (capacity (table s' ! 0))
       else capacity (table s' ! 0) = capacity (table s ! 0))"
    by blast
  with e s(2,3) have "capacity_step (capacity (table s ! 0)) (capacity (table s' ! 0))"
    by simp
  ultimately show ?thesis using c r s e s' by (simp add: a)
qed

theorem set_allocation_failure_witness:
  "wf_map (after seven_sets) \<and>
   compute_key (after seven_sets) ''a_key_7'' = Inr \<lparr>pkey = 97, skey = 574\<rparr> \<and>
   bucket_of (after seven_sets) \<lparr>pkey = 97, skey = 574\<rparr> = 0 \<and>
   count (table (after seven_sets) ! 0) = 7 \<and> capacity (table (after seven_sets) ! 0) = 8 \<and>
   tmp_capacity (after seven_sets) = 0 \<and>
   map_sum id (\<lambda>(r, calls, m1). (r, calls, table m1 = table (after seven_sets)))
     (hashmap_set \<lparr>scratch_ok = False, items_ok = True\<rparr> (after seven_sets) ''a_key_7'' (Some 80))
     = Inr (False, [], True)"
proof -
  define st where "st = after seven_sets"
  define K where "K = \<lparr>pkey = 97, skey = 574\<rparr>"
  let ?a = "\<lparr>scratch_ok = False, items_ok = True\<rparr>"
  have "let s = after seven_sets; k = \<lparr>pkey = 97, skey = 574\<rparr> in
      wf_map s \<and> compute_key s ''a_key_7'' = Inr k \<and> bucket_of s k = 0 \<and>
      count (table s ! 0) = 7 \<and> capacity (table s ! 0) = 8 \<and> tmp_capacity s = 0"
    by code_simp
  then have f: "wf_map st" "compute_key st ''a_key_7'' = Inr K" "bucket_of st K = 0"
    "count (table st ! 0) = 7" "capacity (table st ! 0) = 8" "tmp_capacity st = 0"
    unfolding Let_def st_def K_def by blast+
  have needed: "\<not> count (table st ! bucket_of st K) + 1 < capacity (table st ! bucket_of st K)"
    using f by simp
  have fails: "tmp_capacity st < capacity (table st ! bucket_of st K) \<and> \<not> scratch_ok ?a \<or>
      \<not> items_ok ?a"
    using f by simp
  from set_allocation_failure [OF f(1,2) needed fails, of "Some 80"] obtain m1 where
    "hashmap_set ?a st ''a_key_7'' (Some 80) = Inr (False, [], m1)" "table m1 = table st"
    by blast
  then have "map_sum id (\<lambda>(r, calls, m1). (r, calls, table m1 = table st))
     (hashmap_set ?a st ''a_key_7'' (Some 80)) = Inr (False, [], True)"
    by simp
  then show ?thesis using f unfolding st_def K_def by simp
qed

theorem nine_keys_one_bucket_witness:
  "hashmap_create True 1 collision_hash True = Inr (Some test_map) \<and>
   length nine_sets = 9 \<and>
   distinct (map (\<lambda>(a, ks, d). compute_key test_map ks) nine_sets) \<and>
   \<not> Option.is_none (set_all test_map nine_sets) \<and>
   capacity (table (the (set_all test_map nine_sets)) ! 0) = 16 \<and>
   hashmap_get (the (set_all test_map nine_sets)) ''a_key_0'' = Inr (Some 10) \<and>
   hashmap_get (the (set_all test_map nine_sets)) ''a_key_8'' = Inr (Some 90)"
proof -
  have c: "hashmap_create True 1 collision_hash True = Inr (Some test_map)"
    by (simp add: hashmap_create_def create_size_def sizeof_HashMap_def sizeof_HashMapBucket_def
          SIZE_LIMIT_def test_map_def)
  have n: "length nine_sets = 9" by (simp add: nine_sets_def)
  have "map (\<lambda>(a, ks, d). compute_key test_map ks) nine_sets =
      [Inr \<lparr>pkey = 97, skey = 567\<rparr>, Inr \<lparr>pkey = 97, skey = 568\<rparr>,
       Inr \<lparr>pkey = 97, skey = 569\<rparr>, Inr \<lparr>pkey = 97, skey = 570\<rparr>,
       Inr \<lparr>pkey = 97, skey = 571\<rparr>, Inr \<lparr>pkey = 97, skey = 572\<rparr>,
       Inr \<lparr>pkey = 97, skey = 573\<rparr>, Inr \<lparr>pkey = 97, skey = 574\<rparr>,
       Inr \<lparr>pkey = 97, skey = 575\<rparr>]"
    by code_simp
  then have d: "distinct (map (\<lambda>(a, ks, d). compute_key test_map ks) nine_sets)"
    by simp
  have "\<not> Option.is_none (set_all test_map nine_sets)"
    by code_simp
  then obtain m where s: "set_all test_map nine_sets = Some m"
    by (auto simp: Option.is_none_def)
  have b: "\<forall>(a, ks, d) \<in> set nine_sets.
      \<exists>k. compute_key test_map ks = Inr k \<and> bucket_of test_map k = 0"
    by (simp add: nine_sets_def compute_key_def bucket_of_def test_map_def)
  from nine_keys_one_bucket [OF c n d b s]
  have "capacity (table m ! 0) = 16"
    and "\<forall>(a, ks, d) \<in> set nine_sets. hashmap_get m ks = Inr (Some d)"
    by simp_all
  then have "capacity (table m ! 0) = 16 \<and> hashmap_get m ''a_key_0'' = Inr (Some 10) \<and>
      hashmap_get m ''a_key_8'' = Inr (Some 90)"
    by (simp add: nine_sets_def)
  then show ?thesis using c n d s by simp
qed


text \<open>
  C7. With a destroy callback configured, a successful \<open>hashmap_set\<close> of a key with a
  second reference, after a successful \<open>hashmap_set\<close> of that key with a first one, should
  call the callback once, on the first reference. In the tests' container \<^verbatim>\<open>a_key_0\<close> and
  \<^verbatim>\<open>a_key_8\<close> have the same home slot. After \<open>overwrite_ops\<close> the slot of \<^verbatim>\<open>a_key_0\<close> holds no
  data, \<^verbatim>\<open>a_key_8\<close> is stored behind it with reference 100, and the stored count is 6 with
  5 slots holding data, the deletion having left it as it was. \<open>hashmap_set\<close> of \<^verbatim>\<open>a_key_8\<close>
  with 200 returns true and fills the slot without data, so the key is stored twice. The
  next \<open>hashmap_set\<close> of \<^verbatim>\<open>a_key_8\<close>, with 300, grows the bucket, re-inserts the older slot
  first, returns true and calls the callback on 100: 200 was never passed to it and is
  still stored.
\<close>

theorem overwrite_destroys_other:
  "free_item (after overwrite_ops) \<and>
   count (table (after overwrite_ops) ! 0) = 6 \<and>
   length (filter (\<lambda>it. data it \<noteq> None) (items (table (after overwrite_ops) ! 0))) = 5 \<and>
   map_sum id fst (hashmap_set all_ok (after overwrite_ops) ''a_key_8'' (Some 200)) = Inr True \<and>
   items (table (after (overwrite_ops @ [OpSet all_ok ''a_key_8'' (Some 200)])) ! 0) ! 0 =
     \<lparr>key = \<lparr>pkey = 97, skey = 575\<rparr>, data = Some 100\<rparr> \<and>
   items (table (after (overwrite_ops @ [OpSet all_ok ''a_key_8'' (Some 200)])) ! 0) ! 7 =
     \<lparr>key = \<lparr>pkey = 97, skey = 575\<rparr>, data = Some 200\<rparr> \<and>
   map_sum id fst
     (hashmap_set all_ok (after (overwrite_ops @ [OpSet all_ok ''a_key_8'' (Some 200)]))
        ''a_key_8'' (Some 300)) = Inr True \<and>
   map_sum id (fst \<circ> snd)
     (hashmap_set all_ok (after (overwrite_ops @ [OpSet all_ok ''a_key_8'' (Some 200)]))
        ''a_key_8'' (Some 300)) = Inr [100] \<and>
   items (table (after (overwrite_ops @ [OpSet all_ok ''a_key_8'' (Some 200),
                                          OpSet all_ok ''a_key_8'' (Some 300)])) ! 0) ! 0 =
     \<lparr>key = \<lparr>pkey = 97, skey = 575\<rparr>, data = Some 200\<rparr> \<and>
   hashmap_get (after (overwrite_ops @ [OpSet all_ok ''a_key_8'' (Some 200),
                                       OpSet all_ok ''a_key_8'' (Some 300)])) ''a_key_8'' =
     Inr (Some 300)"
proof -
  have "case run test_map overwrite_ops of
          Inl e \<Rightarrow> False
        | Inr st \<Rightarrow> free_item st \<and> count (table st ! 0) = 6 \<and>
            length (filter (\<lambda>it. data it \<noteq> None) (items (table st ! 0))) = 5 \<and>
            (case hashmap_set all_ok st ''a_key_8'' (Some 200) of
               Inl e \<Rightarrow> False
             | Inr r1 \<Rightarrow> fst r1 \<and>
                 items (table (snd (snd r1)) ! 0) ! 0 =
                   \<lparr>key = \<lparr>pkey = 97, skey = 575\<rparr>, data = Some 100\<rparr> \<and>
                 items (table (snd (snd r1)) ! 0) ! 7 =
                   \<lparr>key = \<lparr>pkey = 97, skey = 575\<rparr>, data = Some 200\<rparr> \<and>
                 (case hashmap_set all_ok (snd (snd r1)) ''a_key_8'' (Some 300) of
                    Inl e \<Rightarrow> False
                  | Inr r2 \<Rightarrow> fst r2 \<and> fst (snd r2) = [100] \<and>
                      items (table (snd (snd r2)) ! 0) ! 0 =
                        \<lparr>key = \<lparr>pkey = 97, skey = 575\<rparr>, data = Some 200\<rparr> \<and>
                      hashmap_get (snd (snd r2)) ''a_key_8'' = Inr (Some 300)))"
    by code_simp
  then obtain st r1 r2 where st: "run test_map overwrite_ops = Inr st" "free_item st"
      "count (table st ! 0) = 6"
      "length (filter (\<lambda>it. data it \<noteq> None) (items (table st ! 0))) = 5"
    and r1: "hashmap_set all_ok st ''a_key_8'' (Some 200) = Inr r1" "fst r1"
      "items (table (snd (snd r1)) ! 0) ! 0 = \<lparr>key = \<lparr>pkey = 97, skey = 575\<rparr>, data = Some 100\<rparr>"
      "items (table (snd (snd r1)) ! 0) ! 7 = \<lparr>key = \<lparr>pkey = 97, skey = 575\<rparr>, data = Some 200\<rparr>"
    and r2: "hashmap_set all_ok (snd (snd r1)) ''a_key_8'' (Some 300) = Inr r2" "fst r2"
      "fst (snd r2) = [100]"
      "items (table (snd (snd r2)) ! 0) ! 0 = \<lparr>key = \<lparr>pkey = 97, skey = 575\<rparr>, data = Some 200\<rparr>"
      "hashmap_get (snd (snd r2)) ''a_key_8'' = Inr (Some 300)"
    by (auto split: sum.splits)
  note run1 = run_snoc_set [OF st(1) r1(1)]
  have a2: "after (overwrite_ops @ [OpSet all_ok ''a_key_8'' (Some 200),
      OpSet all_ok ''a_key_8'' (Some 300)]) = snd (snd r2)"
    using after_run [OF run_snoc_set [OF run1 r2(1)]] by simp
  show ?thesis
    using st r1 r2 by (simp add: after_run [OF st(1)] after_run [OF run1] a2)
qed


text \<open>
  C2. A successful \<open>hashmap_delete\<close> should leave the bucket's stored count one lower.
  The code decrements the count of its local copy of the bucket: in the tests'
  container, after one \<open>hashmap_set\<close> the stored count is 1, \<open>hashmap_delete\<close> of that key
  returns true, and the stored count is still 1.
\<close>

theorem delete_count_not_stored:
  "map_sum id fst (hashmap_delete (after [OpSet all_ok ''a_key_0'' (Some 10)]) ''a_key_0'' (Some None))
     = Inr True \<and>
   count (table (after [OpSet all_ok ''a_key_0'' (Some 10)]) ! 0) = 1 \<and>
   count (table (after [OpSet all_ok ''a_key_0'' (Some 10), OpDelete ''a_key_0'' (Some None)]) ! 0) = 1"
  by code_simp


text \<open>
  C3. A key stored at probe offset 1, behind an occupied slot at offset 0, should be
  found by \<open>hashmap_delete\<close>. The loop advances by two: in the tests' container,
  \<^verbatim>\<open>a_key_0\<close> and \<^verbatim>\<open>a_key_8\<close> start at the same slot, the second is stored at offset 1, and
  its deletion returns false.
\<close>

theorem delete_skips_odd_offsets:
  "compute_key (after [OpSet all_ok ''a_key_0'' (Some 10), OpSet all_ok ''a_key_8'' (Some 20)])
     ''a_key_8'' = Inr \<lparr>pkey = 97, skey = 575\<rparr> \<and>
   data (probe_slot (table (after [OpSet all_ok ''a_key_0'' (Some 10),
      OpSet all_ok ''a_key_8'' (Some 20)]) ! 0) \<lparr>pkey = 97, skey = 575\<rparr> 0) = Some 10 \<and>
   probe_slot (table (after [OpSet all_ok ''a_key_0'' (Some 10),
      OpSet all_ok ''a_key_8'' (Some 20)]) ! 0) \<lparr>pkey = 97, skey = 575\<rparr> 1
     = \<lparr>key = \<lparr>pkey = 97, skey = 575\<rparr>, data = Some 20\<rparr> \<and>
   map_sum id fst (hashmap_delete (after [OpSet all_ok ''a_key_0'' (Some 10),
      OpSet all_ok ''a_key_8'' (Some 20)]) ''a_key_8'' None) = Inr False"
proof -
  have "let s = after [OpSet all_ok ''a_key_0'' (Some 10), OpSet all_ok ''a_key_8'' (Some 20)] in
      compute_key s ''a_key_8'' = Inr \<lparr>pkey = 97, skey = 575\<rparr> \<and>
      data (probe_slot (table s ! 0) \<lparr>pkey = 97, skey = 575\<rparr> 0) = Some 10 \<and>
      probe_slot (table s ! 0) \<lparr>pkey = 97, skey = 575\<rparr> 1
        = \<lparr>key = \<lparr>pkey = 97, skey = 575\<rparr>, data = Some 20\<rparr> \<and>
      map_sum id fst (hashmap_delete s ''a_key_8'' None) = Inr False"
    by code_simp
  then show ?thesis unfolding Let_def .
qed

text \<open>
  C4. On a freshly created container a key that was never inserted is not found by
  \<open>hashmap_get\<close>, and \<open>hashmap_delete\<close> should return false; it divides by the bucket's
  capacity, which is zero.
\<close>

theorem delete_on_fresh_container:
  "hashmap_create True 1 collision_hash True = Inr (Some test_map) \<and>
   hashmap_get test_map ''a_key_0'' = Inr None \<and>
   hashmap_delete test_map ''a_key_0'' None = Inl DivisionByZero"
  by (simp add: hashmap_create_def create_size_def sizeof_HashMap_def sizeof_HashMapBucket_def
        SIZE_LIMIT_def test_map_def hashmap_get_def hashmap_delete_def
        compute_key_def get_item_def bucket_of_def)

end
